theory Spec2Isabelle
  imports Main "HOL-Library.Word"
begin

section \<open>The UART driver of the CPC daemon (driver/driver_uart.c)\<close>

text \<open>
  The driver moves bytes between a serial link and a datagram socket to the core. This
  development embeds the functions of \<^verbatim>\<open>driver_uart.c\<close> as HOL functions: the static
  variables of a function become fields of a record that is passed in and returned, every
  system call takes its outcome from an explicit environment argument, and every
  \<^verbatim>\<open>FATAL\<close>, \<^verbatim>\<open>FATAL_ON\<close>, \<^verbatim>\<open>FATAL_SYSCALL_ON\<close>, \<^verbatim>\<open>BUG_ON\<close> is the left
  injection of a sum.
\<close>

subsection \<open>Bytes, fatal exits, the frame codec\<close>

type_synonym byte = "8 word"
type_synonym u16 = "16 word"
type_synonym u32 = "32 word"

text \<open>
  The macros of \<^verbatim>\<open>log.h\<close> that end the process. The string is the condition or the
  message of the call site, so that two exits of one function can be told apart.
\<close>

datatype fatal =
    FATAL string
  | FATAL_ON string
  | FATAL_SYSCALL_ON string
  | BUG_ON string
  | BUG

text \<open>
  The frame codec (\<^verbatim>\<open>hdlc.h\<close>, \<^verbatim>\<open>crc.h\<close>) is taken as given. Its constants and
  functions are the fields of a record that every function below takes as its first
  argument, so each result holds for every header layout and every checksum. A pointer to
  a header, \<^verbatim>\<open>&buffer[i]\<close>, is passed to the codec as the
  \<^verbatim>\<open>SLI_CPC_HDLC_HEADER_RAW_SIZE\<close> bytes found at offset \<open>i\<close>: the codec reads the header
  it is pointed at and nothing else. The marker lies inside the header
  (\<^verbatim>\<open>SLI_CPC_HDLC_FLAG_POS\<close> is below \<^verbatim>\<open>SLI_CPC_HDLC_HEADER_RAW_SIZE\<close>), and the header has
  at least one byte; where a result needs the latter it says so.
\<close>

record hdlc =
  SLI_CPC_HDLC_FLAG_POS :: nat
  SLI_CPC_HDLC_FLAG_VAL :: byte
  SLI_CPC_HDLC_HEADER_SIZE :: nat
  SLI_CPC_HDLC_HEADER_RAW_SIZE :: nat
  hdlc_get_hcs :: "byte list \<Rightarrow> u16"
  hdlc_get_length :: "byte list \<Rightarrow> u16"
  sli_cpc_validate_crc_sw :: "byte list \<Rightarrow> nat \<Rightarrow> u16 \<Rightarrow> bool"

definition header_at :: "hdlc \<Rightarrow> byte list \<Rightarrow> nat \<Rightarrow> byte list" where
  "header_at c buffer i = take (SLI_CPC_HDLC_HEADER_RAW_SIZE c) (drop i buffer)"

text \<open>\<^verbatim>\<open>#define UART_BUFFER_SIZE 4096 + SLI_CPC_HDLC_HEADER_RAW_SIZE\<close>\<close>

definition UART_BUFFER_SIZE :: "hdlc \<Rightarrow> nat" where
  "UART_BUFFER_SIZE c = 4096 + SLI_CPC_HDLC_HEADER_RAW_SIZE c"

text \<open>
  \<^verbatim>\<open>memmove(&buffer[dst], &buffer[src], n)\<close> and \<^verbatim>\<open>memcpy(&buffer[dst], temp, n)\<close> on
  an array held as a list. The bytes outside the destination range stay as they were,
  those past \<open>buffer_head\<close> included.
\<close>

definition memmove :: "byte list \<Rightarrow> nat \<Rightarrow> nat \<Rightarrow> nat \<Rightarrow> byte list" where
  "memmove buffer dst src n = take dst buffer @ take n (drop src buffer) @ drop (dst + n) buffer"

definition memcpy :: "byte list \<Rightarrow> nat \<Rightarrow> byte list \<Rightarrow> nat \<Rightarrow> byte list" where
  "memcpy buffer dst temp n = take dst buffer @ take n temp @ drop (dst + n) buffer"

subsection \<open>Header validation and resynchronisation\<close>

definition validate_header :: "hdlc \<Rightarrow> byte list \<Rightarrow> bool" where
  "validate_header c header_start =
     (if header_start ! SLI_CPC_HDLC_FLAG_POS c \<noteq> SLI_CPC_HDLC_FLAG_VAL c then False
      else let hcs = hdlc_get_hcs c header_start in
        if \<not> sli_cpc_validate_crc_sw c header_start (SLI_CPC_HDLC_HEADER_SIZE c) hcs then False
        else True)"

text \<open>
  The \<^verbatim>\<open>for (i = 0; i != num_header_combination; i++)\<close> loop of \<^verbatim>\<open>header_re_synch\<close>
  with its two exits. The loop starts at 0 and counts up to \<open>num_header_combination\<close>, so
  \<^verbatim>\<open>i != num_header_combination\<close> is \<open>i < num_header_combination\<close>. The result is the
  return value, the buffer and \<^verbatim>\<open>*buffer_head\<close>.
\<close>

function header_re_synch_loop ::
  "hdlc \<Rightarrow> byte list \<Rightarrow> nat \<Rightarrow> nat \<Rightarrow> nat \<Rightarrow> bool \<times> byte list \<times> nat" where
  "header_re_synch_loop c buffer buffer_head num_header_combination i =
     (if i < num_header_combination then
        (if validate_header c (header_at c buffer i) then
           (if i = 0 then (True, buffer, buffer_head)
            else (True, memmove buffer 0 i (buffer_head - i), buffer_head - i))
         else header_re_synch_loop c buffer buffer_head num_header_combination (i + 1))
      else (False,
            memmove buffer 0 num_header_combination (SLI_CPC_HDLC_HEADER_RAW_SIZE c - 1),
            SLI_CPC_HDLC_HEADER_RAW_SIZE c - 1))"
  by pat_completeness auto
termination
  by (relation "measure (\<lambda>(c, buffer, buffer_head, n, i). n - i)") auto

declare header_re_synch_loop.simps [simp del]

definition header_re_synch :: "hdlc \<Rightarrow> byte list \<Rightarrow> nat \<Rightarrow> bool \<times> byte list \<times> nat" where
  "header_re_synch c buffer buffer_head =
     (if buffer_head < SLI_CPC_HDLC_HEADER_RAW_SIZE c then (False, buffer, buffer_head)
      else let num_header_combination = buffer_head - SLI_CPC_HDLC_HEADER_RAW_SIZE c + 1
           in header_re_synch_loop c buffer buffer_head num_header_combination 0)"

subsection \<open>Frame delimiting\<close>

text \<open>
  The core end of the socket pair: \<open>write_core core frame\<close> is what
  \<^verbatim>\<open>write(fd_core, buffer, frame_size)\<close> returns when \<open>core\<close> is the list of datagrams
  written so far. A complete write adds the datagram to that list.
\<close>

type_synonym core_write = "byte list list \<Rightarrow> byte list \<Rightarrow> int"

definition delimit_and_push_frames_to_core ::
  "hdlc \<Rightarrow> core_write \<Rightarrow> byte list list \<Rightarrow> byte list \<Rightarrow> nat
     \<Rightarrow> fatal + (bool \<times> byte list \<times> nat \<times> byte list list)" where
  "delimit_and_push_frames_to_core c write_core core buffer buffer_head =
     (if buffer_head < SLI_CPC_HDLC_HEADER_RAW_SIZE c then Inr (False, buffer, buffer_head, core)
      else let payload_len = hdlc_get_length c (header_at c buffer 0);
               frame_size = unat payload_len + SLI_CPC_HDLC_HEADER_RAW_SIZE c
        in if frame_size > buffer_head then Inr (False, buffer, buffer_head, core)
           else let write_retval = write_core core (take frame_size buffer)
             in if write_retval < 0 then Inl (FATAL_SYSCALL_ON ''write_retval < 0'')
                else if nat write_retval \<noteq> frame_size
                  then Inl (FATAL_ON ''(size_t)write_retval != frame_size'')
                else let remaining_bytes = buffer_head - frame_size
                  in Inr (True, memmove buffer 0 frame_size remaining_bytes, remaining_bytes,
                          core @ [take frame_size buffer]))"

subsection \<open>Reading the link\<close>

text \<open>
  What the system gives one call of \<^verbatim>\<open>read_and_append_uart_received_data\<close>: the return
  value of \<^verbatim>\<open>ioctl(fd_uart, FIONREAD, &available_bytes)\<close> and the count it stores,
  what the upper half of \<^verbatim>\<open>available_bytes\<close> holds (see below), whether \<^verbatim>\<open>malloc\<close>
  returns \<^verbatim>\<open>NULL\<close>, and the outcome of \<^verbatim>\<open>read(fd_uart, temp_buffer, n)\<close> for each
  \<open>n\<close>: \<open>None\<close> for a negative return, \<open>Some bytes\<close> when \<^verbatim>\<open>read\<close> returns
  \<open>length bytes\<close> and has put \<open>bytes\<close> in \<^verbatim>\<open>temp_buffer\<close>.
\<close>

record uart_read =
  FIONREAD_retval :: int
  FIONREAD_count :: nat
  stack_upper :: nat
  malloc_NULL :: bool
  read_result :: "nat \<Rightarrow> byte list option"

text \<open>
  The variable is declared \<^verbatim>\<open>size_t available_bytes;\<close> with no initial value, and
  \<^verbatim>\<open>FIONREAD\<close> stores an \<^verbatim>\<open>int\<close> through the pointer it is given. Where
  \<^verbatim>\<open>size_t\<close> has eight bytes and \<^verbatim>\<open>int\<close> four, with the low-order bytes first (Linux
  on x86-64 and AArch64), the call writes the lower half of the variable with the count,
  a value below \<open>2 ^ 31\<close>, and the upper half keeps what the stack held before,
  \<open>stack_upper\<close>, a value below \<open>2 ^ 32\<close>. The function goes on with the eight bytes
  read as one number. Where \<^verbatim>\<open>size_t\<close> is as wide as \<^verbatim>\<open>int\<close> nothing is left over:
  that is \<open>stack_upper = 0\<close>.
\<close>

definition available_bytes :: "uart_read \<Rightarrow> nat" where
  "available_bytes r = stack_upper r * 2 ^ 32 + FIONREAD_count r"

text \<open>
  The function returns the number of bytes appended; the model returns the buffer after
  the \<^verbatim>\<open>memcpy\<close> with it. \<^verbatim>\<open>buffer_size - buffer_head\<close> is a subtraction of
  \<^verbatim>\<open>size_t\<close> values; the caller passes \<^verbatim>\<open>sizeof(buffer)\<close> and a head that never
  exceeds it (\<open>C8\<close> below), so the subtraction of natural numbers is the same number.
\<close>

definition read_and_append_uart_received_data ::
  "uart_read \<Rightarrow> byte list \<Rightarrow> nat \<Rightarrow> nat \<Rightarrow> fatal + (byte list \<times> nat)" where
  "read_and_append_uart_received_data r buffer buffer_head buffer_size =
     (if FIONREAD_retval r < 0 then Inl (FATAL_SYSCALL_ON ''retval < 0'')
      else if available_bytes r = 0 then Inl (BUG_ON ''available_bytes == 0'')
      else let available_space = buffer_size - buffer_head;
               actual_read_bytes =
                 (if available_bytes r < available_space then available_bytes r
                  else available_space)
        in if malloc_NULL r then Inl (FATAL_ON ''temp_buffer == NULL'')
           else case read_result r actual_read_bytes of
               None \<Rightarrow> Inl (FATAL_ON ''read_retval < 0'')
             | Some temp_buffer \<Rightarrow>
                 if length temp_buffer \<noteq> actual_read_bytes
                   then Inl (FATAL_ON ''(size_t) read_retval != actual_read_bytes'')
                 else Inr (memcpy buffer buffer_head temp_buffer actual_read_bytes,
                           actual_read_bytes))"

subsection \<open>The ingress loop\<close>

datatype sync_state = EXPECTING_HEADER | EXPECTING_PAYLOAD

text \<open>
  The static variables of \<^verbatim>\<open>driver_uart_process_uart\<close>, and the datagrams that have
  reached the core.
\<close>

record ingress =
  buffer :: "byte list"
  buffer_head :: nat
  state :: sync_state
  core :: "byte list list"

text \<open>
  One pass through the body of the \<^verbatim>\<open>while (1)\<close> loop of
  \<^verbatim>\<open>driver_uart_process_uart\<close>: the \<^verbatim>\<open>switch (state)\<close>. The boolean tells whether
  the loop goes on (\<^verbatim>\<open>break\<close> out of the switch) or the function returns. The
  \<^verbatim>\<open>default: BUG()\<close> branch has no counterpart, the enumeration having two values.
\<close>

definition process_uart_iteration ::
  "hdlc \<Rightarrow> core_write \<Rightarrow> ingress \<Rightarrow> fatal + (bool \<times> ingress)" where
  "process_uart_iteration c write_core s =
     (case state s of
        EXPECTING_HEADER \<Rightarrow>
          (case header_re_synch c (buffer s) (buffer_head s) of
             (True, buffer', buffer_head') \<Rightarrow>
               Inr (True, s\<lparr>buffer := buffer', buffer_head := buffer_head',
                             state := EXPECTING_PAYLOAD\<rparr>)
           | (False, buffer', buffer_head') \<Rightarrow>
               Inr (False, s\<lparr>buffer := buffer', buffer_head := buffer_head'\<rparr>))
      | EXPECTING_PAYLOAD \<Rightarrow>
          (case delimit_and_push_frames_to_core c write_core (core s) (buffer s) (buffer_head s) of
             Inl e \<Rightarrow> Inl e
           | Inr (True, buffer', buffer_head', core') \<Rightarrow>
               Inr (True, s\<lparr>buffer := buffer', buffer_head := buffer_head', core := core',
                             state := EXPECTING_HEADER\<rparr>)
           | Inr (False, buffer', buffer_head', core') \<Rightarrow>
               Inr (False, s\<lparr>buffer := buffer', buffer_head := buffer_head', core := core'\<rparr>)))"

text \<open>
  The loop itself. It has no bound of its own, so it is a partial function: \<open>None\<close>
  stands for a loop that never returns, \<open>Some (Inl e)\<close> for a fatal exit and
  \<open>Some (Inr s)\<close> for a return with the statics \<open>s\<close>.
\<close>

partial_function (option) process_uart_loop ::
  "hdlc \<Rightarrow> core_write \<Rightarrow> ingress \<Rightarrow> (fatal + ingress) option" where
  "process_uart_loop c write_core s =
     (case process_uart_iteration c write_core s of
        Inl e \<Rightarrow> Some (Inl e)
      | Inr (again, s') \<Rightarrow> if again then process_uart_loop c write_core s' else Some (Inr s'))"

subsection \<open>One wake on the link\<close>

definition driver_uart_process_uart ::
  "hdlc \<Rightarrow> core_write \<Rightarrow> uart_read \<Rightarrow> ingress \<Rightarrow> (fatal + ingress) option" where
  "driver_uart_process_uart c write_core r s =
     (case read_and_append_uart_received_data r (buffer s) (buffer_head s) (UART_BUFFER_SIZE c) of
        Inl e \<Rightarrow> Some (Inl e)
      | Inr (buffer', n) \<Rightarrow>
          process_uart_loop c write_core (s\<lparr>buffer := buffer', buffer_head := buffer_head s + n\<rparr>))"

text \<open>
  The statics at program start: a zeroed array, \<^verbatim>\<open>buffer_head = 0\<close>,
  \<^verbatim>\<open>state = EXPECTING_HEADER\<close>; nothing has been written to the core.
\<close>

definition ingress_init :: "hdlc \<Rightarrow> ingress" where
  "ingress_init c =
     \<lparr>buffer = replicate (UART_BUFFER_SIZE c) 0, buffer_head = 0,
      state = EXPECTING_HEADER, core = []\<rparr>"

text \<open>
  The dispatcher calls \<^verbatim>\<open>driver_uart_process_uart\<close> once for each wake on the link; a
  fatal exit ends the process and the calls with it.
\<close>

fun process_uart_calls ::
  "hdlc \<Rightarrow> core_write \<Rightarrow> uart_read list \<Rightarrow> ingress \<Rightarrow> (fatal + ingress) option" where
  "process_uart_calls c write_core [] s = Some (Inr s)"
| "process_uart_calls c write_core (r # rs) s =
     (case driver_uart_process_uart c write_core r s of
        None \<Rightarrow> None
      | Some (Inl e) \<Rightarrow> Some (Inl e)
      | Some (Inr s') \<Rightarrow> process_uart_calls c write_core rs s')"

text \<open>
  A wake with \<open>pending\<close> waiting in the link's receive queue, in which every system
  call succeeds and the upper half of \<^verbatim>\<open>available_bytes\<close> holds \<open>upper\<close>:
  \<^verbatim>\<open>FIONREAD\<close> stores the number of pending bytes, and \<^verbatim>\<open>read\<close> hands over as many
  of them as it is asked for, all of them when it is asked for more.
\<close>

definition uart_delivers :: "nat \<Rightarrow> byte list \<Rightarrow> uart_read" where
  "uart_delivers upper pending =
     \<lparr>FIONREAD_retval = 0, FIONREAD_count = length pending, stack_upper = upper,
      malloc_NULL = False, read_result = (\<lambda>n. Some (take n pending))\<rparr>"

text \<open>
  The chunks the link can deliver while a header is sought. A read takes no more than the
  space that is free, and as long as no header has been found the buffer holds, of the
  \<open>received\<close> bytes so far, the last \<^verbatim>\<open>SLI_CPC_HDLC_HEADER_RAW_SIZE - 1\<close> at most. So
  each chunk is not empty and fits into \<^verbatim>\<open>UART_BUFFER_SIZE\<close> less what the buffer holds.
\<close>

fun chunks_fit :: "hdlc \<Rightarrow> nat \<Rightarrow> byte list list \<Rightarrow> bool" where
  "chunks_fit c received [] = True"
| "chunks_fit c received (ch # chunks) =
     (ch \<noteq> []
      \<and> length ch \<le> UART_BUFFER_SIZE c - min received (SLI_CPC_HDLC_HEADER_RAW_SIZE c - 1)
      \<and> chunks_fit c (received + length ch) chunks)"

subsection \<open>Sleep times\<close>

text \<open>
  The pacer computes each sleep as
  \<^verbatim>\<open>(unsigned int)(((double)(bytes * 8) / uart_bitrate) * 1000000)\<close>: the product of two
  \<^verbatim>\<open>int\<close>s and the bit rate, an \<^verbatim>\<open>unsigned int\<close>, are converted to \<^verbatim>\<open>double\<close> and
  divided, the quotient is multiplied by \<^verbatim>\<open>1000000\<close>, and the product is truncated to an
  \<^verbatim>\<open>unsigned int\<close>. \<^verbatim>\<open>int\<close> and \<^verbatim>\<open>unsigned int\<close> have 32 bits. \<^verbatim>\<open>double\<close> is the
  binary64 format of IEEE 754 with 53 significant bits; the division and the
  multiplication each round the exact result to the nearest \<^verbatim>\<open>double\<close>, a tie to the one
  with the even significand, and are evaluated in the precision of their type (x86-64,
  AArch64).

  A finite \<^verbatim>\<open>double\<close> is modelled by a pair \<open>(m, e)\<close> of integers that stands for
  \<open>m * 2 ^ e\<close>, where \<open>\<bar>m\<bar> \<le> 2 ^ 53\<close>. The exponent is not bounded in the model: the
  quotients and products of the expression above that are not zero have a magnitude
  between \<open>2 ^ - 32\<close> and \<open>2 ^ 51\<close>, far from the overflow and the subnormal numbers of binary64.
\<close>

type_synonym double = "int \<times> int"

text \<open>The number of binary digits of a positive integer.\<close>

function bit_length :: "int \<Rightarrow> int" where
  "bit_length x = (if 0 < x then bit_length (x div 2) + 1 else 0)"
  by pat_completeness auto
termination
  by (relation "measure nat") auto

declare bit_length.simps [simp del]

text \<open>
  \<open>round_to_even p q\<close> is the integer nearest to \<open>p / q\<close>, the even one of two that are
  equally near; \<open>floor_log2 p q\<close> is the greatest \<open>k\<close> with \<open>2 ^ k \<le> p / q\<close>; both for
  positive \<open>p\<close> and \<open>q\<close>. \<open>binary64 p q\<close> is the \<^verbatim>\<open>double\<close> nearest to \<open>p / q\<close>, for
  positive \<open>q\<close>: the quotient is scaled by the power of two that brings it between
  \<open>2 ^ 52\<close> and \<open>2 ^ 53\<close> and is rounded there.
\<close>

definition round_to_even :: "int \<Rightarrow> int \<Rightarrow> int" where
  "round_to_even p q =
     (let f = p div q; r = p mod q
      in if 2 * r < q then f else if q < 2 * r then f + 1 else if even f then f else f + 1)"

definition floor_log2 :: "int \<Rightarrow> int \<Rightarrow> int" where
  "floor_log2 p q =
     (let n = bit_length p; d = bit_length q
      in if q * 2 ^ nat n \<le> p * 2 ^ nat d then n - d else n - d - 1)"

definition binary64 :: "int \<Rightarrow> int \<Rightarrow> double" where
  "binary64 p q =
     (if p = 0 then (0, 0)
      else let e = floor_log2 \<bar>p\<bar> q - 52
        in (sgn p * (if 0 \<le> e then round_to_even \<bar>p\<bar> (q * 2 ^ nat e)
                     else round_to_even (\<bar>p\<bar> * 2 ^ nat (- e)) q),
            e))"

text \<open>
  The conversion of a 32-bit integer is exact. Division by zero gives an infinity or a
  NaN, whose conversion to an integer is undefined: \<open>None\<close>.
\<close>

definition double_of_int :: "int \<Rightarrow> double" where
  "double_of_int i = (i, 0)"

definition double_div :: "double \<Rightarrow> double \<Rightarrow> double option" where
  "double_div x y =
     (let (m1, e1) = x; (m2, e2) = y
      in if m2 = 0 then None
         else let (m, e) = binary64 (m1 * sgn m2) \<bar>m2\<bar> in Some (m, e + e1 - e2))"

definition double_mul :: "double \<Rightarrow> double \<Rightarrow> double" where
  "double_mul x y =
     (let (m1, e1) = x; (m2, e2) = y; (m, e) = binary64 (m1 * m2) 1 in (m, e + e1 + e2))"

text \<open>
  The conversion to \<^verbatim>\<open>unsigned int\<close> drops the fractional part; the behaviour is undefined
  when what remains is not a value of the type.
\<close>

definition unsigned_of_double :: "double \<Rightarrow> u32 option" where
  "unsigned_of_double x =
     (let (m, e) = x;
          t = (if 0 \<le> e then m * 2 ^ nat e else sgn m * (\<bar>m\<bar> div 2 ^ nat (- e)))
      in if 0 \<le> t \<and> t < 2 ^ 32 then Some (word_of_int t) else None)"

text \<open>The product of two \<^verbatim>\<open>int\<close>s; an overflow is undefined behaviour.\<close>

definition int_mul :: "int \<Rightarrow> int \<Rightarrow> int option" where
  "int_mul a b = (if - (2 ^ 31) \<le> a * b \<and> a * b < 2 ^ 31 then Some (a * b) else None)"

text \<open>
  The expression of lines 459 and 467, with \<open>bytes\<close> the variable \<^verbatim>\<open>bytes_remaining\<close>
  in the first and the constant \<^verbatim>\<open>20\<close> in the second.
\<close>

definition time_usec :: "int \<Rightarrow> u32 \<Rightarrow> u32 option" where
  "time_usec bytes uart_bitrate =
     (case int_mul bytes 8 of
        None \<Rightarrow> None
      | Some bits \<Rightarrow>
          (case double_div (double_of_int bits) (double_of_int (uint uart_bitrate)) of
             None \<Rightarrow> None
           | Some ratio \<Rightarrow> unsigned_of_double (double_mul ratio (double_of_int 1000000))))"

subsection \<open>The egress pacer\<close>

text \<open>
  \<^verbatim>\<open>driver_uart_process_core\<close> makes its calls in a fixed order; the model returns them
  as a list, oldest first. \<open>TIOCOUTQ n\<close> is a poll of the transmit queue after which
  \<^verbatim>\<open>bytes_remaining\<close> holds \<open>n\<close>, \<open>Usleep t\<close> a call \<^verbatim>\<open>usleep(t)\<close>, \<open>Write_uart m\<close>
  the call \<^verbatim>\<open>write(fd_uart, buffer, read_retval)\<close> with \<open>m\<close> the bytes handed over.
  No clock is modelled: a sleep is the call that asks for it, with the time asked for.
\<close>

datatype call = Read_core | TIOCOUTQ int | Usleep u32 | Write_uart "byte list"

text \<open>
  What the system gives one call of \<^verbatim>\<open>driver_uart_process_core\<close>: the outcome of the
  read from the core socket, the outcome of each \<^verbatim>\<open>ioctl(fd_uart, TIOCOUTQ, ...)\<close> as
  the pair of its return value and of the depth it stores when it succeeds, and the return
  value of the write to the link. The polls after the first are a finite script.
\<close>

record core_wake =
  core_read_retval :: int
  core_read_buffer :: "byte list"
  first_TIOCOUTQ :: "int \<times> int"
  later_TIOCOUTQ :: "(int \<times> int) list"
  uart_write_retval :: "byte list \<Rightarrow> int"

text \<open>
  How a call ends: the function returns, the process exits, the script of polls ends with
  the queue not yet seen empty (the function is still polling), or a sleep time has no
  defined value. Nothing is known of a C program after undefined behaviour, so the list of
  calls ends there.
\<close>

datatype ending = Returned | Exited fatal | Still_polling | Undefined_behaviour

text \<open>
  The \<^verbatim>\<open>while (bytes_remaining != 0)\<close> loop; \<open>None\<close> when the loop is left. The return
  value of the \<^verbatim>\<open>ioctl\<close> inside the loop is not looked at; a failed call stores nothing,
  so \<^verbatim>\<open>bytes_remaining\<close> keeps its value.
\<close>

fun drain_loop :: "u32 \<Rightarrow> int \<Rightarrow> (int \<times> int) list \<Rightarrow> call list \<times> ending option" where
  "drain_loop uart_bitrate bytes_remaining [] =
     (if bytes_remaining \<noteq> 0 then
        (case time_usec bytes_remaining uart_bitrate of
           None \<Rightarrow> ([], Some Undefined_behaviour)
         | Some usec \<Rightarrow> ([Usleep usec], Some Still_polling))
      else ([], None))"
| "drain_loop uart_bitrate bytes_remaining ((ret, depth) # polls) =
     (if bytes_remaining \<noteq> 0 then
        (case time_usec bytes_remaining uart_bitrate of
           None \<Rightarrow> ([], Some Undefined_behaviour)
         | Some usec \<Rightarrow>
             (let bytes_remaining' = (if ret < 0 then bytes_remaining else depth);
                  (calls, e) = drain_loop uart_bitrate bytes_remaining' polls
              in (Usleep usec # TIOCOUTQ bytes_remaining' # calls, e)))
      else ([], None))"

definition driver_uart_process_core :: "u32 \<Rightarrow> core_wake \<Rightarrow> call list \<times> ending" where
  "driver_uart_process_core uart_bitrate w =
     (let read_retval = core_read_retval w
      in if read_retval < 0 then ([Read_core], Exited (FATAL_SYSCALL_ON ''read_retval < 0''))
         else let (ret, bytes_remaining) = first_TIOCOUTQ w
           in if ret < 0 then ([Read_core], Exited (FATAL_SYSCALL_ON ''ret < 0''))
              else if bytes_remaining < 0
                then ([Read_core, TIOCOUTQ bytes_remaining],
                      Exited (BUG_ON ''bytes_remaining < 0''))
              else let (calls, e) = drain_loop uart_bitrate bytes_remaining (later_TIOCOUTQ w)
                in case e of
                     Some ended \<Rightarrow> (Read_core # TIOCOUTQ bytes_remaining # calls, ended)
                   | None \<Rightarrow>
                       (case time_usec 20 uart_bitrate of
                          None \<Rightarrow>
                            (Read_core # TIOCOUTQ bytes_remaining # calls, Undefined_behaviour)
                        | Some usec \<Rightarrow>
                            let message = take (nat read_retval) (core_read_buffer w);
                                write_retval = uart_write_retval w message
                            in (Read_core # TIOCOUTQ bytes_remaining # calls
                                  @ [Usleep usec, Write_uart message],
                                if write_retval < 0
                                  then Exited (FATAL_SYSCALL_ON ''write_retval < 0'')
                                else if nat write_retval \<noteq> nat read_retval
                                  then Exited
                                    (FATAL_ON ''(size_t)write_retval != (size_t)read_retval'')
                                else Returned)))"

subsection \<open>Opening the link\<close>

text \<open>
  The speed symbols of \<^verbatim>\<open>termios.h\<close> are system constants; they are the fields of a
  record, and the table \<^verbatim>\<open>conversion\<close> is built from it.
\<close>

record termios_h =
  B9600 :: int
  B19200 :: int
  B38400 :: int
  B57600 :: int
  B115200 :: int
  B230400 :: int
  B460800 :: int
  B921600 :: int

definition conversion :: "termios_h \<Rightarrow> (u32 \<times> int) list" where
  "conversion t =
     [(9600, B9600 t), (19200, B19200 t), (38400, B38400 t), (57600, B57600 t),
      (115200, B115200 t), (230400, B230400 t), (460800, B460800 t), (921600, B921600 t)]"

text \<open>
  The return values of \<^verbatim>\<open>open\<close>, \<^verbatim>\<open>tcgetattr\<close> and \<^verbatim>\<open>tcsetattr\<close>. The terminal
  settings written between the last two (raw mode, flow control from \<^verbatim>\<open>hardflow\<close>) do
  not bear on what the function returns and are left out.
\<close>

record uart_open_calls =
  open_retval :: int
  tcgetattr_retval :: int
  tcsetattr_retval :: int

definition driver_uart_open ::
  "termios_h \<Rightarrow> uart_open_calls \<Rightarrow> string \<Rightarrow> u32 \<Rightarrow> bool \<Rightarrow> fatal + int" where
  "driver_uart_open t sys device bitrate hardflow =
     (let fd = open_retval sys
      in if fd < 0 then Inl (FATAL ''%s: %m'')
         else if tcgetattr_retval sys = - 1 then Inl (FATAL ''tcgetattr: %m'')
         else let sym_bitrate =
                    fold (\<lambda>(val, symbolic) sym_bitrate.
                            if val = bitrate then symbolic else sym_bitrate)
                      (conversion t) (- 1)
           in if sym_bitrate < 0 then Inl (FATAL ''invalid bitrate: %d'')
              else if tcsetattr_retval sys < 0 then Inl (FATAL ''tcsetattr: %m'')
              else Inr fd)"

subsection \<open>The event dispatcher\<close>

text \<open>
  The two callbacks registered with \<^verbatim>\<open>epoll_ctl\<close> in \<^verbatim>\<open>driver_uart_init\<close>, and what
  one call of \<^verbatim>\<open>epoll_wait\<close> gives: its return value, \<^verbatim>\<open>errno\<close>, and the array
  \<^verbatim>\<open>events\<close> as the callbacks stored in its entries.
\<close>

datatype callback = Process_core | Process_uart

record epoll_result =
  event_count :: int
  errno :: int
  events :: "callback list"

text \<open>
  The \<^verbatim>\<open>do ... while ((event_count == -1) && (errno == EINTR))\<close> loop, run against a
  finite script of results. \<open>None\<close>: the script is over and the thread is blocked in
  \<^verbatim>\<open>epoll_wait\<close>. \<^verbatim>\<open>EINTR\<close> is a constant of \<^verbatim>\<open>errno.h\<close> and an argument here.
\<close>

fun epoll_wait_retry :: "int \<Rightarrow> epoll_result list \<Rightarrow> (epoll_result \<times> epoll_result list) option" where
  "epoll_wait_retry EINTR [] = None"
| "epoll_wait_retry EINTR (r # script) =
     (if event_count r = - 1 \<and> errno r = EINTR then epoll_wait_retry EINTR script
      else Some (r, script))"

text \<open>
  The \<^verbatim>\<open>for (event_i = 0; event_i != (size_t)event_count; event_i++)\<close> loop over the
  callbacks of the ready entries. A callback is a function on the state of the driver that
  returns or ends the process.
\<close>

fun process_ready :: "(callback \<Rightarrow> 's \<Rightarrow> fatal + 's) \<Rightarrow> callback list \<Rightarrow> 's \<Rightarrow> fatal + 's" where
  "process_ready run [] s = Inr s"
| "process_ready run (cb # cbs) s =
     (case run cb s of Inl e \<Rightarrow> Inl e | Inr s' \<Rightarrow> process_ready run cbs s')"

text \<open>
  \<^verbatim>\<open>driver_thread_func\<close>: the \<^verbatim>\<open>while (1)\<close> loop never returns, so the thread ends
  in one of two ways: \<open>Inl e\<close>, a fatal exit, or \<open>Inr s\<close>, blocked in \<^verbatim>\<open>epoll_wait\<close> at
  the end of the script with the driver in state \<open>s\<close>. \<^verbatim>\<open>epoll_wait\<close> is called with
  \<^verbatim>\<open>MAX_EPOLL_EVENTS = 1\<close> and returns no more than that, so the ready entries are the
  first \<open>event_count\<close> ones of \<open>events\<close>.
\<close>

function driver_thread_func ::
  "(callback \<Rightarrow> 's \<Rightarrow> fatal + 's) \<Rightarrow> int \<Rightarrow> epoll_result list \<Rightarrow> 's \<Rightarrow> fatal + 's" where
  "driver_thread_func run EINTR script s =
     (case epoll_wait_retry EINTR script of
        None \<Rightarrow> Inr s
      | Some (r, script') \<Rightarrow>
          if event_count r < 0 then Inl (FATAL_SYSCALL_ON ''event_count < 0'')
          else if event_count r = 0 then Inl (FATAL_ON ''event_count == 0'')
          else case process_ready run (take (nat (event_count r)) (events r)) s of
              Inl e \<Rightarrow> Inl e
            | Inr s' \<Rightarrow> driver_thread_func run EINTR script' s')"
  by pat_completeness auto
termination
proof (relation "measure (\<lambda>(run, EINTR, script, s). length script)")
  show "wf (measure (\<lambda>(run, EINTR, script, s). length script))"
    by simp
next
  fix run :: "callback \<Rightarrow> 's \<Rightarrow> fatal + 's"
  fix EINTR :: int and script script' :: "epoll_result list" and s s' :: 's
  fix x :: "epoll_result \<times> epoll_result list" and r :: epoll_result
  assume "epoll_wait_retry EINTR script = Some x" and "(r, script') = x"
  then have w: "epoll_wait_retry EINTR script = Some (r, script')"
    by simp
  have "length rest < length scr" if "epoll_wait_retry EINTR scr = Some (q, rest)"
    for scr rest q
    using that by (induction scr) (auto split: if_splits intro: less_SucI)
  from this [OF w]
  show "((run, EINTR, script', s'), (run, EINTR, script, s))
          \<in> measure (\<lambda>(run, EINTR, script, s). length script)"
    by simp
qed

declare driver_thread_func.simps [simp del]

subsection \<open>A codec for closed instances\<close>

text \<open>
  The results below hold for every codec. Where one is evaluated at a concrete input, the
  input uses this small layout, which is not the daemon's: a header of four bytes, the
  marker \<open>0x14\<close> first, a little-endian payload length in the next two, and in the last
  byte the sum of the first three.
\<close>

definition example_hdlc :: hdlc where
  "example_hdlc =
     \<lparr>SLI_CPC_HDLC_FLAG_POS = 0, SLI_CPC_HDLC_FLAG_VAL = 0x14,
      SLI_CPC_HDLC_HEADER_SIZE = 3, SLI_CPC_HDLC_HEADER_RAW_SIZE = 4,
      hdlc_get_hcs = (\<lambda>h. ucast (h ! 3)),
      hdlc_get_length = (\<lambda>h. ucast (h ! 1) + 256 * ucast (h ! 2)),
      sli_cpc_validate_crc_sw = (\<lambda>h n hcs. ucast (sum_list (take n h)) = hcs)\<rparr>"

section \<open>Properties\<close>

subsection \<open>Moving bytes\<close>

lemma length_memmove:
  "src + n \<le> length b \<Longrightarrow> length (memmove b 0 src n) = length b"
  by (simp add: memmove_def)

lemma take_memmove:
  "src + n \<le> length b \<Longrightarrow> take n (memmove b 0 src n) = take n (drop src b)"
  by (simp add: memmove_def)

lemma memmove_0: "n \<le> length b \<Longrightarrow> memmove b 0 0 n = b"
  by (simp add: memmove_def)

lemma moved_suffix:
  assumes "src + n = h"
  shows "take n (drop src b) = drop src (take h b)"
proof -
  have "drop src (take h b) = take (h - src) (drop src b)"
    by (simp only: drop_take)
  moreover have "h - src = n"
    using assms by simp
  ultimately show ?thesis by simp
qed

lemma length_memcpy:
  "length temp = n \<Longrightarrow> h + n \<le> length b \<Longrightarrow> length (memcpy b h temp n) = length b"
  by (simp add: memcpy_def)

lemma take_memcpy:
  "length temp = n \<Longrightarrow> h \<le> length b \<Longrightarrow> take (h + n) (memcpy b h temp n) = take h b @ temp"
  by (simp add: memcpy_def)

lemma take_memcpy_below:
  "m \<le> h \<Longrightarrow> h \<le> length b \<Longrightarrow> take m (memcpy b h temp n) = take m b"
  by (simp add: memcpy_def)

lemma header_memcpy:
  "SLI_CPC_HDLC_HEADER_RAW_SIZE c \<le> h \<Longrightarrow> h \<le> length b \<Longrightarrow>
   header_at c (memcpy b h temp n) 0 = header_at c b 0"
  by (simp add: header_at_def take_memcpy_below)

subsection \<open>The scan for a header\<close>

lemma loop_none:
  "\<forall>j. i \<le> j \<and> j < n \<longrightarrow> \<not> validate_header c (header_at c b j) \<Longrightarrow>
   header_re_synch_loop c b h n i =
     (False, memmove b 0 n (SLI_CPC_HDLC_HEADER_RAW_SIZE c - 1),
      SLI_CPC_HDLC_HEADER_RAW_SIZE c - 1)"
proof (induction c b h n i rule: header_re_synch_loop.induct)
  case (1 c b h n i)
  show ?case
  proof (cases "i < n")
    case True
    then have nv: "\<not> validate_header c (header_at c b i)"
      using "1.prems" by simp
    have "header_re_synch_loop c b h n (i + 1) =
            (False, memmove b 0 n (SLI_CPC_HDLC_HEADER_RAW_SIZE c - 1),
             SLI_CPC_HDLC_HEADER_RAW_SIZE c - 1)"
      using "1.IH" [OF True nv] "1.prems" by simp
    then show ?thesis
      using True nv by (subst header_re_synch_loop.simps) simp
  next
    case False
    then show ?thesis
      by (subst header_re_synch_loop.simps) simp
  qed
qed

lemma loop_first:
  "i \<le> k \<Longrightarrow> k < n \<Longrightarrow> validate_header c (header_at c b k) \<Longrightarrow>
   \<forall>j. i \<le> j \<and> j < k \<longrightarrow> \<not> validate_header c (header_at c b j) \<Longrightarrow>
   header_re_synch_loop c b h n i =
     (True, if k = 0 then b else memmove b 0 k (h - k), h - k)"
proof (induction c b h n i rule: header_re_synch_loop.induct)
  case (1 c b h n i)
  show ?case
  proof (cases "i = k")
    case True
    then show ?thesis
      using "1.prems" by (subst header_re_synch_loop.simps) simp
  next
    case False
    then have lt: "i < k"
      using "1.prems" by simp
    then have nv: "\<not> validate_header c (header_at c b i)"
      using "1.prems" by simp
    have inn: "i < n"
      using lt "1.prems" by simp
    have "header_re_synch_loop c b h n (i + 1) =
            (True, if k = 0 then b else memmove b 0 k (h - k), h - k)"
      using "1.IH" [OF inn nv] "1.prems" lt by simp
    then show ?thesis
      using inn nv by (subst header_re_synch_loop.simps) simp
  qed
qed

lemma header_re_synch_none:
  assumes "SLI_CPC_HDLC_HEADER_RAW_SIZE c \<le> h"
    and "\<forall>i. i + SLI_CPC_HDLC_HEADER_RAW_SIZE c \<le> h
           \<longrightarrow> \<not> validate_header c (header_at c b i)"
  shows "header_re_synch c b h =
     (False,
      memmove b 0 (h - SLI_CPC_HDLC_HEADER_RAW_SIZE c + 1) (SLI_CPC_HDLC_HEADER_RAW_SIZE c - 1),
      SLI_CPC_HDLC_HEADER_RAW_SIZE c - 1)"
proof -
  have nv: "\<forall>j. 0 \<le> j \<and> j < h - SLI_CPC_HDLC_HEADER_RAW_SIZE c + 1
              \<longrightarrow> \<not> validate_header c (header_at c b j)"
    using assms by auto
  have "header_re_synch c b h
          = header_re_synch_loop c b h (h - SLI_CPC_HDLC_HEADER_RAW_SIZE c + 1) 0"
    using assms(1) by (simp add: header_re_synch_def)
  also note loop_none [OF nv]
  finally show ?thesis .
qed

lemma header_re_synch_first:
  assumes "k + SLI_CPC_HDLC_HEADER_RAW_SIZE c \<le> h"
    and "validate_header c (header_at c b k)"
    and "\<forall>i<k. \<not> validate_header c (header_at c b i)"
  shows "header_re_synch c b h = (True, memmove b 0 k (h - k), h - k)"
proof -
  let ?r = "SLI_CPC_HDLC_HEADER_RAW_SIZE c"
  have kn: "k < h - ?r + 1"
    using assms(1) by simp
  have nv: "\<forall>j. 0 \<le> j \<and> j < k \<longrightarrow> \<not> validate_header c (header_at c b j)"
    using assms(3) by simp
  have "header_re_synch c b h = header_re_synch_loop c b h (h - ?r + 1) 0"
    using assms(1) by (simp add: header_re_synch_def)
  also have "\<dots> = (True, if k = 0 then b else memmove b 0 k (h - k), h - k)"
    using kn assms(2) nv by (intro loop_first) simp_all
  also have "(if k = 0 then b else memmove b 0 k (h - k)) = memmove b 0 k (h - k)"
    by (simp add: memmove_def)
  finally show ?thesis .
qed

lemma suffix_content:
  assumes "0 < r" "r \<le> h" "h \<le> length b"
  shows "take (r - 1) (memmove b 0 (h - r + 1) (r - 1)) = drop (h - (r - 1)) (take h b)"
proof -
  have e: "h - r + 1 = h - (r - 1)"
    using assms by simp
  have "take (r - 1) (memmove b 0 (h - r + 1) (r - 1)) = take (r - 1) (drop (h - r + 1) b)"
    using assms by (intro take_memmove) simp
  also have "\<dots> = take (r - 1) (drop (h - (r - 1)) b)"
    by (simp only: e)
  also have "\<dots> = drop (h - (r - 1)) (take h b)"
    using assms by (intro moved_suffix) simp
  finally show ?thesis .
qed

lemma header_at_prefix:
  "i + SLI_CPC_HDLC_HEADER_RAW_SIZE c \<le> length xs \<Longrightarrow>
   header_at c (xs @ ys) i = header_at c xs i"
  by (simp add: header_at_def)

lemma window_of_content:
  assumes "take h b = drop d st"
    and "j + SLI_CPC_HDLC_HEADER_RAW_SIZE c \<le> h"
  shows "header_at c b j = header_at c st (d + j)"
proof -
  let ?r = "SLI_CPC_HDLC_HEADER_RAW_SIZE c"
  have "header_at c b j = take ?r (drop j b)"
    by (simp add: header_at_def)
  also have "\<dots> = take ?r (drop j (take h b))"
    using assms(2) by (simp add: drop_take min_def)
  also have "\<dots> = take ?r (drop j (drop d st))"
    by (simp only: assms(1))
  also have "\<dots> = header_at c st (d + j)"
    by (simp add: header_at_def add.commute)
  finally show ?thesis .
qed

lemma synch_content:
  assumes "k + SLI_CPC_HDLC_HEADER_RAW_SIZE c \<le> h" and "h \<le> length b"
  shows "take (h - k) (memmove b 0 k (h - k)) = drop k (take h b)"
    and "length (memmove b 0 k (h - k)) = length b"
    and "header_at c (memmove b 0 k (h - k)) 0 = header_at c b k"
proof -
  have kb: "k + (h - k) \<le> length b"
    using assms by simp
  have "take (h - k) (memmove b 0 k (h - k)) = take (h - k) (drop k b)"
    using kb by (rule take_memmove)
  also have "\<dots> = drop k (take h b)"
    using assms(1) by (intro moved_suffix) simp
  finally show c: "take (h - k) (memmove b 0 k (h - k)) = drop k (take h b)" .
  show "length (memmove b 0 k (h - k)) = length b"
    using kb by (rule length_memmove)
  have "take (h - k) (memmove b 0 k (h - k)) = drop k (take h b)"
    by (rule c)
  moreover have "0 + SLI_CPC_HDLC_HEADER_RAW_SIZE c \<le> h - k"
    using assms(1) by simp
  ultimately have "header_at c (memmove b 0 k (h - k)) 0 = header_at c (take h b) (k + 0)"
    by (rule window_of_content)
  also have "\<dots> = header_at c b k"
    using assms(1) by (simp add: header_at_def drop_take min_def)
  finally show "header_at c (memmove b 0 k (h - k)) 0 = header_at c b k" .
qed

text \<open>
  What \<^verbatim>\<open>header_re_synch\<close> leaves, whatever it returns: the head does not grow, the
  array keeps its size, and the buffered bytes are the last of those buffered before.
\<close>

lemma header_re_synch_loop_result:
  assumes "header_re_synch_loop c b h n i = (ok, b1, h1)"
    and "n = h - SLI_CPC_HDLC_HEADER_RAW_SIZE c + 1"
    and "0 < SLI_CPC_HDLC_HEADER_RAW_SIZE c"
    and "SLI_CPC_HDLC_HEADER_RAW_SIZE c \<le> h"
    and "h \<le> length b"
  shows "h1 \<le> h \<and> length b1 = length b \<and> take h1 b1 = drop (h - h1) (take h b)
         \<and> (ok \<longrightarrow> SLI_CPC_HDLC_HEADER_RAW_SIZE c \<le> h1)
         \<and> (\<not> ok \<longrightarrow> h1 < h)"
  using assms
proof (induction c b h n i rule: header_re_synch_loop.induct)
  case (1 c b h n i)
  let ?r = "SLI_CPC_HDLC_HEADER_RAW_SIZE c"
  note e = "1.prems"(1) [unfolded header_re_synch_loop.simps [of c b h n i]]
  show ?case
  proof (cases "i < n")
    case inn: True
    show ?thesis
    proof (cases "validate_header c (header_at c b i)")
      case v: True
      have ih: "i + ?r \<le> h"
        using inn "1.prems"(2,4) by simp
      show ?thesis
      proof (cases "i = 0")
        case True
        with inn v e have "ok" "b1 = b" "h1 = h"
          by auto
        then show ?thesis
          using "1.prems"(4) by simp
      next
        case False
        with inn v e have r: "ok" "b1 = memmove b 0 i (h - i)" "h1 = h - i"
          by auto
        have ib: "i + (h - i) \<le> length b"
          using ih "1.prems"(5) by simp
        have "take (h - i) (memmove b 0 i (h - i)) = take (h - i) (drop i b)"
          using ib by (rule take_memmove)
        also have "\<dots> = drop i (take h b)"
          using ih by (intro moved_suffix) simp
        finally have "take h1 b1 = drop (h - h1) (take h b)"
          using r ih by simp
        moreover have "length b1 = length b"
          unfolding r using ib by (rule length_memmove)
        ultimately show ?thesis
          using r ih by simp
      qed
    next
      case nv: False
      have "header_re_synch_loop c b h n (i + 1) = (ok, b1, h1)"
        using inn nv e by simp
      from "1.IH" [OF inn nv this "1.prems"(2-5)]
      show ?thesis .
    qed
  next
    case False
    with e have r: "\<not> ok" "b1 = memmove b 0 n (?r - 1)" "h1 = ?r - 1"
      by auto
    have "take (?r - 1) (memmove b 0 (h - ?r + 1) (?r - 1)) = drop (h - (?r - 1)) (take h b)"
      using "1.prems"(3-5) by (rule suffix_content)
    then have c: "take h1 b1 = drop (h - h1) (take h b)"
      using r "1.prems"(2) by simp
    have l: "length b1 = length b"
      unfolding r "1.prems"(2) using "1.prems"(3-5) by (intro length_memmove) simp
    have "?r - 1 < h"
      using "1.prems"(3,4) by arith
    then have lt: "h1 < h"
      using r(3) by simp
    show ?thesis
      using c l lt r(1) by simp
  qed
qed

lemma header_re_synch_result:
  assumes "header_re_synch c b h = (ok, b1, h1)"
    and "0 < SLI_CPC_HDLC_HEADER_RAW_SIZE c"
    and "h \<le> length b"
  shows "h1 \<le> h \<and> length b1 = length b \<and> take h1 b1 = drop (h - h1) (take h b)
         \<and> (ok \<longrightarrow> SLI_CPC_HDLC_HEADER_RAW_SIZE c \<le> h1)"
proof (cases "h < SLI_CPC_HDLC_HEADER_RAW_SIZE c")
  case True
  with assms(1) have "\<not> ok" "b1 = b" "h1 = h"
    by (simp_all add: header_re_synch_def)
  then show ?thesis
    by simp
next
  case False
  with assms(1)
  have "header_re_synch_loop c b h (h - SLI_CPC_HDLC_HEADER_RAW_SIZE c + 1) 0 = (ok, b1, h1)"
    by (simp add: header_re_synch_def)
  from header_re_synch_loop_result [OF this refl assms(2) _ assms(3)] False
  show ?thesis
    by simp
qed

text \<open>
  The same without a bound on the head: what the head does, whatever the array.
\<close>

lemma header_re_synch_loop_head:
  assumes "header_re_synch_loop c b h n i = (ok, b1, h1)"
    and "0 < SLI_CPC_HDLC_HEADER_RAW_SIZE c"
    and "SLI_CPC_HDLC_HEADER_RAW_SIZE c \<le> h"
  shows "h1 \<le> h \<and> (ok \<and> h1 = h \<longrightarrow> b1 = b) \<and> (\<not> ok \<longrightarrow> h1 < h)"
  using assms
proof (induction c b h n i rule: header_re_synch_loop.induct)
  case (1 c b h n i)
  note e = "1.prems"(1) [unfolded header_re_synch_loop.simps [of c b h n i]]
  show ?case
  proof (cases "i < n")
    case inn: True
    show ?thesis
    proof (cases "validate_header c (header_at c b i)")
      case v: True
      show ?thesis
      proof (cases "i = 0")
        case True
        with inn v e show ?thesis
          by auto
      next
        case False
        with inn v e have "ok" "h1 = h - i"
          by auto
        moreover have "h - i < h"
          using False "1.prems"(2,3) by simp
        ultimately show ?thesis
          by simp
      qed
    next
      case nv: False
      have "header_re_synch_loop c b h n (i + 1) = (ok, b1, h1)"
        using inn nv e by simp
      from "1.IH" [OF inn nv this "1.prems"(2,3)]
      show ?thesis .
    qed
  next
    case False
    with e have "\<not> ok" "h1 = SLI_CPC_HDLC_HEADER_RAW_SIZE c - 1"
      by auto
    moreover have "SLI_CPC_HDLC_HEADER_RAW_SIZE c - 1 < h"
      using "1.prems"(2,3) by arith
    ultimately show ?thesis
      by simp
  qed
qed

lemma header_re_synch_head:
  assumes "header_re_synch c b h = (ok, b1, h1)"
    and "0 < SLI_CPC_HDLC_HEADER_RAW_SIZE c"
  shows "h1 \<le> h \<and> (ok \<and> h1 = h \<longrightarrow> b1 = b)"
proof (cases "h < SLI_CPC_HDLC_HEADER_RAW_SIZE c")
  case True
  with assms(1) show ?thesis
    by (simp add: header_re_synch_def)
next
  case False
  with assms(1)
  have "header_re_synch_loop c b h (h - SLI_CPC_HDLC_HEADER_RAW_SIZE c + 1) 0 = (ok, b1, h1)"
    by (simp add: header_re_synch_def)
  from header_re_synch_loop_head [OF this assms(2)] False
  show ?thesis
    by simp
qed

subsection \<open>The delimiter and the append, whatever they return\<close>

lemma delimit_result:
  assumes "delimit_and_push_frames_to_core c w co b h = Inr (ok, b1, h1, co1)"
    and "h \<le> length b"
  shows "h1 \<le> h \<and> length b1 = length b \<and> take h1 b1 = drop (h - h1) (take h b)"
proof (cases ok)
  case False
  with assms(1) have "b1 = b" "h1 = h"
    by (auto simp: delimit_and_push_frames_to_core_def Let_def split: if_splits)
  then show ?thesis
    by simp
next
  case True
  let ?fs = "unat (hdlc_get_length c (header_at c b 0)) + SLI_CPC_HDLC_HEADER_RAW_SIZE c"
  from True assms(1) have r: "?fs \<le> h" "b1 = memmove b 0 ?fs (h - ?fs)" "h1 = h - ?fs"
    by (auto simp: delimit_and_push_frames_to_core_def Let_def split: if_splits)
  have fb: "?fs + (h - ?fs) \<le> length b"
    using r(1) assms(2) by simp
  have "take (h - ?fs) (memmove b 0 ?fs (h - ?fs)) = take (h - ?fs) (drop ?fs b)"
    using fb by (rule take_memmove)
  also have "\<dots> = drop ?fs (take h b)"
    using r(1) by (intro moved_suffix) simp
  finally have "take h1 b1 = drop (h - h1) (take h b)"
    using r by simp
  moreover have "length b1 = length b"
    unfolding r using fb by (rule length_memmove)
  ultimately show ?thesis
    using r by simp
qed

lemma delimit_progress:
  assumes "delimit_and_push_frames_to_core c w co b h = Inr (True, b1, h1, co1)"
    and "0 < SLI_CPC_HDLC_HEADER_RAW_SIZE c"
  shows "h1 < h"
  using assms
  by (auto simp: delimit_and_push_frames_to_core_def Let_def split: if_splits)

lemma read_and_append_Inr:
  assumes "read_and_append_uart_received_data r b h sz = Inr (b1, n)"
  shows "\<exists>temp. read_result r n = Some temp \<and> length temp = n
           \<and> n = min (available_bytes r) (sz - h) \<and> b1 = memcpy b h temp n
           \<and> 0 < available_bytes r"
  using assms
  by (auto simp: read_and_append_uart_received_data_def Let_def min_def
           split: if_splits option.splits)

subsection \<open>One pass through the loop, and the loop\<close>

text \<open>
  A pass that goes on changes the state; it shortens the buffered bytes unless it found a
  header at offset 0. Twice the head plus one in \<^verbatim>\<open>EXPECTING_HEADER\<close> therefore
  decreases, and the loop ends. The invariant \<open>P\<close> is carried along.
\<close>

lemma iteration_kinds:
  assumes "process_uart_iteration c w s = Inr (True, s')"
    and "0 < SLI_CPC_HDLC_HEADER_RAW_SIZE c"
  shows "(state s = EXPECTING_PAYLOAD \<and> state s' = EXPECTING_HEADER
            \<and> buffer_head s' < buffer_head s)
       \<or> (state s = EXPECTING_HEADER \<and> state s' = EXPECTING_PAYLOAD
            \<and> (buffer_head s' < buffer_head s
                \<or> buffer_head s' = buffer_head s \<and> buffer s' = buffer s))"
proof (cases "state s")
  case EXPECTING_HEADER
  obtain ok b1 h1 where r: "header_re_synch c (buffer s) (buffer_head s) = (ok, b1, h1)"
    by (cases "header_re_synch c (buffer s) (buffer_head s)")
  from assms(1) EXPECTING_HEADER r
  have ok: "ok" and s': "s' = s\<lparr>buffer := b1, buffer_head := h1, state := EXPECTING_PAYLOAD\<rparr>"
    by (auto simp: process_uart_iteration_def split: bool.splits)
  from header_re_synch_head [OF r assms(2)] ok
  have "h1 \<le> buffer_head s" "h1 = buffer_head s \<longrightarrow> b1 = buffer s"
    by simp_all
  then have "h1 < buffer_head s \<or> h1 = buffer_head s \<and> b1 = buffer s"
    by auto
  then show ?thesis
    using EXPECTING_HEADER s' by simp
next
  case EXPECTING_PAYLOAD
  from assms(1) EXPECTING_PAYLOAD
  obtain b1 h1 co1 where
    d: "delimit_and_push_frames_to_core c w (core s) (buffer s) (buffer_head s)
          = Inr (True, b1, h1, co1)"
    and s': "s' = s\<lparr>buffer := b1, buffer_head := h1, core := co1, state := EXPECTING_HEADER\<rparr>"
    by (auto simp: process_uart_iteration_def split: sum.splits bool.splits)
  from delimit_progress [OF d assms(2)]
  show ?thesis
    using EXPECTING_PAYLOAD s' by simp
qed

lemma iteration_measure:
  assumes "process_uart_iteration c w s = Inr (True, s')"
    and "0 < SLI_CPC_HDLC_HEADER_RAW_SIZE c"
  shows "2 * buffer_head s' + (if state s' = EXPECTING_HEADER then 1 else 0)
           < 2 * buffer_head s + (if state s = EXPECTING_HEADER then 1 else (0 :: nat))"
  using iteration_kinds [OF assms] by auto

lemma process_uart_loop_total:
  assumes r: "0 < SLI_CPC_HDLC_HEADER_RAW_SIZE c"
    and step: "\<And>s again s'. P s \<Longrightarrow> process_uart_iteration c w s = Inr (again, s') \<Longrightarrow> P s'"
    and "P s"
  shows "\<exists>res. process_uart_loop c w s = Some res
           \<and> (case res of
                 Inl e \<Rightarrow> (\<exists>s0. P s0 \<and> process_uart_iteration c w s0 = Inl e)
               | Inr s' \<Rightarrow> P s' \<and> (\<exists>s0. P s0 \<and> process_uart_iteration c w s0 = Inr (False, s')))"
  using assms(3)
proof (induction "2 * buffer_head s + (if state s = EXPECTING_HEADER then 1 else (0 :: nat))"
         arbitrary: s rule: less_induct)
  case less
  show ?case
  proof (cases "process_uart_iteration c w s")
    case (Inl e)
    then have "process_uart_loop c w s = Some (Inl e)"
      by (subst process_uart_loop.simps) simp
    then show ?thesis
      using Inl less.prems by auto
  next
    case (Inr p)
    obtain again s1 where p: "p = (again, s1)"
      by (cases p)
    have it: "process_uart_iteration c w s = Inr (again, s1)"
      using Inr p by simp
    have P1: "P s1"
      using less.prems it by (rule step)
    show ?thesis
    proof (cases again)
      case True
      have "2 * buffer_head s1 + (if state s1 = EXPECTING_HEADER then 1 else 0)
              < 2 * buffer_head s + (if state s = EXPECTING_HEADER then 1 else (0 :: nat))"
        using it True r by (intro iteration_measure [of c w s s1]) simp_all
      from less.hyps [OF this P1]
      obtain res where res: "process_uart_loop c w s1 = Some res"
        "case res of
           Inl e \<Rightarrow> (\<exists>s0. P s0 \<and> process_uart_iteration c w s0 = Inl e)
         | Inr s' \<Rightarrow> P s' \<and> (\<exists>s0. P s0 \<and> process_uart_iteration c w s0 = Inr (False, s'))"
        by blast
      have "process_uart_loop c w s = process_uart_loop c w s1"
        using it True by (subst process_uart_loop.simps) simp
      then show ?thesis
        using res by auto
    next
      case False
      have "process_uart_loop c w s = Some (Inr s1)"
        using it False by (subst process_uart_loop.simps) simp
      then show ?thesis
        using P1 less.prems it False by auto
    qed
  qed
qed

lemma iteration_keeps_array:
  assumes "process_uart_iteration c w s = Inr (again, s')"
    and "0 < SLI_CPC_HDLC_HEADER_RAW_SIZE c"
    and "buffer_head s \<le> length (buffer s)"
  shows "length (buffer s') = length (buffer s) \<and> buffer_head s' \<le> buffer_head s"
proof (cases "state s")
  case EXPECTING_HEADER
  obtain ok b1 h1 where r: "header_re_synch c (buffer s) (buffer_head s) = (ok, b1, h1)"
    by (cases "header_re_synch c (buffer s) (buffer_head s)")
  from assms(1) EXPECTING_HEADER r
  have "buffer s' = b1" "buffer_head s' = h1"
    by (auto simp: process_uart_iteration_def split: bool.splits)
  then show ?thesis
    using header_re_synch_result [OF r assms(2,3)] by simp
next
  case EXPECTING_PAYLOAD
  from assms(1) EXPECTING_PAYLOAD
  obtain ok b1 h1 co1 where
    d: "delimit_and_push_frames_to_core c w (core s) (buffer s) (buffer_head s)
          = Inr (ok, b1, h1, co1)"
    and "buffer s' = b1" "buffer_head s' = h1"
    by (auto simp: process_uart_iteration_def split: sum.splits bool.splits)
  then show ?thesis
    using delimit_result [OF d assms(3)] by simp
qed

lemma iteration_not_fatal:
  assumes "\<forall>co f. w co f = int (length f)"
    and "buffer_head s \<le> length (buffer s)"
  shows "process_uart_iteration c w s \<noteq> Inl e"
proof (cases "state s")
  case EXPECTING_HEADER
  then show ?thesis
    by (auto simp: process_uart_iteration_def split: prod.splits bool.splits)
next
  case EXPECTING_PAYLOAD
  have "delimit_and_push_frames_to_core c w (core s) (buffer s) (buffer_head s) \<noteq> Inl e"
    using assms
    by (auto simp: delimit_and_push_frames_to_core_def Let_def min_def)
  then show ?thesis
    using EXPECTING_PAYLOAD
    by (auto simp: process_uart_iteration_def split: sum.splits prod.splits bool.splits)
qed

subsection \<open>Resynchronisation at the first valid header\<close>

text \<open>
  While no header has been seen, the buffer holds the last bytes of what was received:
  all of it while shorter than a header, the last \<^verbatim>\<open>SLI_CPC_HDLC_HEADER_RAW_SIZE - 1\<close>
  bytes afterwards. \<open>t\<close> is what was received so far and \<open>d\<close> the number of bytes dropped.
\<close>

lemma seeking_wake:
  assumes r: "0 < SLI_CPC_HDLC_HEADER_RAW_SIZE c"
    and st: "state s = EXPECTING_HEADER"
    and len: "length (buffer s) = UART_BUFFER_SIZE c"
    and d: "d = length t - (SLI_CPC_HDLC_HEADER_RAW_SIZE c - 1)"
    and hd: "buffer_head s = length t - d"
    and cont: "take (buffer_head s) (buffer s) = drop d t"
    and ch: "ch \<noteq> []"
      "length ch \<le> UART_BUFFER_SIZE c - min (length t) (SLI_CPC_HDLC_HEADER_RAW_SIZE c - 1)"
    and nv: "\<forall>i. i + SLI_CPC_HDLC_HEADER_RAW_SIZE c \<le> length (t @ ch)
               \<longrightarrow> \<not> validate_header c (header_at c (t @ ch) i)"
    and d': "d' = length (t @ ch) - (SLI_CPC_HDLC_HEADER_RAW_SIZE c - 1)"
  shows "\<exists>s'. driver_uart_process_uart c w (uart_delivers 0 ch) s = Some (Inr s')
           \<and> state s' = EXPECTING_HEADER \<and> core s' = core s
           \<and> length (buffer s') = UART_BUFFER_SIZE c
           \<and> buffer_head s' = length (t @ ch) - d'
           \<and> take (buffer_head s') (buffer s') = drop d' (t @ ch)"
proof -
  let ?r = "SLI_CPC_HDLC_HEADER_RAW_SIZE c"
  let ?h = "buffer_head s"
  let ?n = "length ch"
  let ?H = "?h + ?n"
  let ?b1 = "memcpy (buffer s) ?h ch ?n"
  let ?s1 = "s\<lparr>buffer := ?b1, buffer_head := ?H\<rparr>"
  have hr: "?h \<le> ?r - 1"
    using hd d by simp
  have hm: "?h = min (length t) (?r - 1)"
    using hd d by arith
  have sp: "?n \<le> UART_BUFFER_SIZE c - ?h"
    using ch(2) hm by simp
  have hU: "?h \<le> UART_BUFFER_SIZE c"
    using hr r unfolding UART_BUFFER_SIZE_def by arith
  have Hc: "?H \<le> UART_BUFFER_SIZE c"
    using sp hU by simp
  have n0: "0 < ?n"
    using ch(1) by simp
  have rd: "read_and_append_uart_received_data (uart_delivers 0 ch) (buffer s) ?h
              (UART_BUFFER_SIZE c) = Inr (?b1, ?n)"
    using sp n0
    by (auto simp: read_and_append_uart_received_data_def uart_delivers_def available_bytes_def Let_def)
  have pu: "driver_uart_process_uart c w (uart_delivers 0 ch) s = process_uart_loop c w ?s1"
    by (simp add: driver_uart_process_uart_def rd)
  have len1: "length ?b1 = UART_BUFFER_SIZE c"
    using Hc len by (simp add: length_memcpy)
  have dt: "d \<le> length t"
    using d by simp
  have c1: "take ?H ?b1 = drop d (t @ ch)"
  proof -
    have "take ?H ?b1 = take ?h (buffer s) @ ch"
      using Hc len by (intro take_memcpy) simp_all
    also have "\<dots> = drop d t @ ch"
      by (simp only: cont)
    also have "\<dots> = drop d (t @ ch)"
      using dt by simp
    finally show ?thesis .
  qed
  have Hd: "d + ?H = length (t @ ch)"
    using hd dt by simp
  show ?thesis
  proof (cases "?H < ?r")
    case True
    have "header_re_synch c ?b1 ?H = (False, ?b1, ?H)"
      using True by (simp add: header_re_synch_def)
    then have it: "process_uart_iteration c w ?s1 = Inr (False, ?s1)"
      using st by (simp add: process_uart_iteration_def)
    have lp: "process_uart_loop c w ?s1 = Some (Inr ?s1)"
      by (subst process_uart_loop.simps) (simp add: it)
    have Hd': "d + ?H = length t + ?n"
      using Hd by simp
    have d'': "d' = length t + ?n - (?r - 1)"
      using d' by simp
    have d0: "d = 0" "d' = 0"
      using True Hd' d d'' n0 r by arith+
    have "buffer_head ?s1 = length (t @ ch) - d'"
      using Hd d0 by simp
    moreover have "take (buffer_head ?s1) (buffer ?s1) = drop d' (t @ ch)"
      using c1 d0 by simp
    ultimately show ?thesis
      using pu lp st len1 by simp
  next
    case False
    then have rH: "?r \<le> ?H"
      by simp
    have nv1: "\<forall>i. i + ?r \<le> ?H \<longrightarrow> \<not> validate_header c (header_at c ?b1 i)"
    proof (intro allI impI)
      fix i
      assume i: "i + ?r \<le> ?H"
      have "header_at c ?b1 i = header_at c (t @ ch) (d + i)"
        using c1 i by (rule window_of_content)
      moreover have "d + i + ?r \<le> length (t @ ch)"
        using i Hd by simp
      ultimately show "\<not> validate_header c (header_at c ?b1 i)"
        using nv by simp
    qed
    let ?b2 = "memmove ?b1 0 (?H - ?r + 1) (?r - 1)"
    let ?s2 = "?s1\<lparr>buffer := ?b2, buffer_head := ?r - 1\<rparr>"
    have rs: "header_re_synch c ?b1 ?H = (False, ?b2, ?r - 1)"
      using rH nv1 by (rule header_re_synch_none)
    have it: "process_uart_iteration c w ?s1 = Inr (False, ?s2)"
      using st rs by (simp add: process_uart_iteration_def)
    have lp: "process_uart_loop c w ?s1 = Some (Inr ?s2)"
      by (subst process_uart_loop.simps) (simp add: it)
    have Hl: "?H \<le> length ?b1"
      using Hc len1 by simp
    have len2: "length ?b2 = UART_BUFFER_SIZE c"
      using r rH Hl len1 by (simp add: length_memmove)
    have d'e: "d' = d + (?H - (?r - 1))"
      using d' Hd rH r by simp
    have d'e': "?H - (?r - 1) + d = d'"
      using d'e by simp
    have "take (?r - 1) ?b2 = drop (?H - (?r - 1)) (take ?H ?b1)"
      using r rH Hl by (rule suffix_content)
    also have "\<dots> = drop (?H - (?r - 1)) (drop d (t @ ch))"
      by (simp only: c1)
    also have "\<dots> = drop d' (t @ ch)"
      by (simp only: drop_drop d'e')
    finally have c2: "take (?r - 1) ?b2 = drop d' (t @ ch)" .
    have h2: "?r - 1 = length (t @ ch) - d'"
      using d'e Hd rH r by simp
    have "buffer_head ?s2 = length (t @ ch) - d'"
      using h2 by simp
    moreover have "take (buffer_head ?s2) (buffer ?s2) = drop d' (t @ ch)"
      using c2 by simp
    ultimately show ?thesis
      using pu lp st len2 by simp
  qed
qed

lemma seeking_calls:
  assumes r: "0 < SLI_CPC_HDLC_HEADER_RAW_SIZE c"
    and chs: "chunks_fit c (length t) chunks"
    and st: "state s = EXPECTING_HEADER"
    and len: "length (buffer s) = UART_BUFFER_SIZE c"
    and d: "d = length t - (SLI_CPC_HDLC_HEADER_RAW_SIZE c - 1)"
    and hd: "buffer_head s = length t - d"
    and cont: "take (buffer_head s) (buffer s) = drop d t"
    and nv: "\<forall>i. i + SLI_CPC_HDLC_HEADER_RAW_SIZE c \<le> length (t @ concat chunks)
               \<longrightarrow> \<not> validate_header c (header_at c (t @ concat chunks) i)"
    and d': "d' = length (t @ concat chunks) - (SLI_CPC_HDLC_HEADER_RAW_SIZE c - 1)"
  shows "\<exists>s'. process_uart_calls c w (map (uart_delivers 0) chunks) s = Some (Inr s')
           \<and> state s' = EXPECTING_HEADER \<and> core s' = core s
           \<and> length (buffer s') = UART_BUFFER_SIZE c
           \<and> buffer_head s' = length (t @ concat chunks) - d'
           \<and> take (buffer_head s') (buffer s') = drop d' (t @ concat chunks)"
  using chs st len d hd cont nv d'
proof (induction chunks arbitrary: s t d)
  case Nil
  then show ?case
    by simp
next
  case (Cons ch chunks)
  let ?r = "SLI_CPC_HDLC_HEADER_RAW_SIZE c"
  let ?d1 = "length (t @ ch) - (?r - 1)"
  have ch: "ch \<noteq> []"
    "length ch \<le> UART_BUFFER_SIZE c - min (length t) (?r - 1)"
    using Cons.prems(1) by simp_all
  have nv1: "\<forall>i. i + ?r \<le> length (t @ ch) \<longrightarrow> \<not> validate_header c (header_at c (t @ ch) i)"
  proof (intro allI impI)
    fix i
    assume i: "i + ?r \<le> length (t @ ch)"
    have "header_at c ((t @ ch) @ concat chunks) i = header_at c (t @ ch) i"
      using i by (rule header_at_prefix)
    moreover have "\<not> validate_header c (header_at c ((t @ ch) @ concat chunks) i)"
      using Cons.prems(7) i by simp
    ultimately show "\<not> validate_header c (header_at c (t @ ch) i)"
      by simp
  qed
  from seeking_wake [OF r Cons.prems(2,3,4,5,6) ch nv1 refl, of w]
  obtain s1 where s1: "driver_uart_process_uart c w (uart_delivers 0 ch) s = Some (Inr s1)"
    "state s1 = EXPECTING_HEADER" "core s1 = core s"
    "length (buffer s1) = UART_BUFFER_SIZE c"
    "buffer_head s1 = length (t @ ch) - ?d1"
    "take (buffer_head s1) (buffer s1) = drop ?d1 (t @ ch)"
    by blast
  have chs': "chunks_fit c (length (t @ ch)) chunks"
    using Cons.prems(1) by simp
  have nv2: "\<forall>i. i + ?r \<le> length ((t @ ch) @ concat chunks)
               \<longrightarrow> \<not> validate_header c (header_at c ((t @ ch) @ concat chunks) i)"
    using Cons.prems(7) by simp
  have d2: "d' = length ((t @ ch) @ concat chunks) - (?r - 1)"
    using Cons.prems(8) by simp
  from Cons.IH [OF chs' s1(2) s1(4) refl s1(5) s1(6) nv2 d2]
  obtain s' where s': "process_uart_calls c w (map (uart_delivers 0) chunks) s1 = Some (Inr s')"
    "state s' = EXPECTING_HEADER" "core s' = core s1"
    "length (buffer s') = UART_BUFFER_SIZE c"
    "buffer_head s' = length ((t @ ch) @ concat chunks) - d'"
    "take (buffer_head s') (buffer s') = drop d' ((t @ ch) @ concat chunks)"
    by blast
  have "process_uart_calls c w (map (uart_delivers 0) (ch # chunks)) s = Some (Inr s')"
    using s1(1) s'(1) by simp
  then show ?case
    using s' s1(3) by simp
qed

lemma chunks_fit_snoc:
  "chunks_fit c n (chunks @ [last_chunk]) =
     (chunks_fit c n chunks \<and> last_chunk \<noteq> []
      \<and> length last_chunk
          \<le> UART_BUFFER_SIZE c
              - min (n + length (concat chunks)) (SLI_CPC_HDLC_HEADER_RAW_SIZE c - 1))"
  by (induction chunks arbitrary: n) (auto simp: add.assoc)

text \<open>
  Let a byte sequence hold a valid header at offset \<open>k\<close> (marker and checksum
  validate) and no valid header at an offset before \<open>k\<close>. When the whole sequence is in
  the buffer, one pass of \<^verbatim>\<open>header_re_synch\<close> returns true, moves the bytes from
  offset \<open>k\<close> on to offset 0, so that the valid header starts the buffer, and reduces the
  head by \<open>k\<close>. When the sequence arrives in chunks from program start, cut anywhere
  such that the header is complete only with the last chunk, the wakes before the last
  leave the synchroniser in \<^verbatim>\<open>EXPECTING_HEADER\<close> with nothing written to the core; in
  the last wake the first pass of \<^verbatim>\<open>header_re_synch\<close> returns true, the head is the
  length of the sequence less \<open>k\<close>, the buffer holds the sequence from offset \<open>k\<close> on at
  offset 0, and the state becomes \<^verbatim>\<open>EXPECTING_PAYLOAD\<close>. A chunk is what one read
  appends: it is not empty and fits into the space that is free when it arrives. This is
  the driver with the upper half of \<^verbatim>\<open>available_bytes\<close> zero in every wake.
\<close>

lemma resynch_at_first_valid_header:
  assumes r: "0 < SLI_CPC_HDLC_HEADER_RAW_SIZE c"
    and kl: "k + SLI_CPC_HDLC_HEADER_RAW_SIZE c \<le> length stream"
    and v: "validate_header c (header_at c stream k)"
    and nv: "\<forall>i<k. \<not> validate_header c (header_at c stream i)"
  shows "(\<forall>b. length stream \<le> length b \<and> take (length stream) b = stream
            \<longrightarrow> header_re_synch c b (length stream)
                  = (True, memmove b 0 k (length stream - k), length stream - k)
                \<and> take (length stream - k) (memmove b 0 k (length stream - k)) = drop k stream
                \<and> header_at c (memmove b 0 k (length stream - k)) 0 = header_at c stream k)
       \<and> (\<forall>chunks last_chunk.
             stream = concat chunks @ last_chunk
             \<and> chunks_fit c 0 (chunks @ [last_chunk])
             \<and> length (concat chunks) < k + SLI_CPC_HDLC_HEADER_RAW_SIZE c
            \<longrightarrow> (\<exists>s1 b1 b2.
                   process_uart_calls c w (map (uart_delivers 0) chunks) (ingress_init c)
                     = Some (Inr s1)
                 \<and> state s1 = EXPECTING_HEADER \<and> core s1 = []
                 \<and> read_and_append_uart_received_data (uart_delivers 0 last_chunk) (buffer s1)
                       (buffer_head s1) (UART_BUFFER_SIZE c)
                     = Inr (b1, length last_chunk)
                 \<and> header_re_synch c b1 (buffer_head s1 + length last_chunk)
                     = (True, b2, length stream - k)
                 \<and> take (length stream - k) b2 = drop k stream
                 \<and> header_at c b2 0 = header_at c stream k
                 \<and> process_uart_iteration c w
                       (s1\<lparr>buffer := b1, buffer_head := buffer_head s1 + length last_chunk\<rparr>)
                     = Inr (True, s1\<lparr>buffer := b2, buffer_head := length stream - k,
                                     state := EXPECTING_PAYLOAD\<rparr>)))"
proof -
  let ?r = "SLI_CPC_HDLC_HEADER_RAW_SIZE c"
  have synch: "header_re_synch c b H = (True, memmove b 0 (k - d) (length stream - k),
                                        length stream - k)
             \<and> take (length stream - k) (memmove b 0 (k - d) (length stream - k))
                 = drop k stream
             \<and> header_at c (memmove b 0 (k - d) (length stream - k)) 0 = header_at c stream k"
    if c: "take H b = drop d stream" and Hl: "H \<le> length b" and dk: "d \<le> k"
      and Hd: "d + H = length stream" for b H d
  proof -
    let ?j = "k - d"
    have jH: "?j + ?r \<le> H"
      using kl dk Hd by simp
    have e: "H - ?j = length stream - k"
      using kl dk Hd by simp
    have dj: "d + ?j = k"
      using dk by simp
    have "header_at c b ?j = header_at c stream (d + ?j)"
      using c jH by (rule window_of_content)
    then have vj: "validate_header c (header_at c b ?j)"
      using v dj by simp
    have nvj: "\<forall>i<?j. \<not> validate_header c (header_at c b i)"
    proof (intro allI impI)
      fix i
      assume i: "i < ?j"
      then have "i + ?r \<le> H"
        using jH by simp
      with c have "header_at c b i = header_at c stream (d + i)"
        by (rule window_of_content)
      moreover have "d + i < k"
        using i by simp
      ultimately show "\<not> validate_header c (header_at c b i)"
        using nv by simp
    qed
    have 1: "header_re_synch c b H = (True, memmove b 0 ?j (H - ?j), H - ?j)"
      using jH vj nvj by (rule header_re_synch_first)
    have "take (H - ?j) (memmove b 0 ?j (H - ?j)) = drop ?j (take H b)"
      using jH Hl by (rule synch_content(1))
    also have "\<dots> = drop ?j (drop d stream)"
      by (simp only: c)
    also have "\<dots> = drop k stream"
      using dk by simp
    finally have 2: "take (H - ?j) (memmove b 0 ?j (H - ?j)) = drop k stream" .
    have "header_at c (memmove b 0 ?j (H - ?j)) 0 = header_at c b ?j"
      using jH Hl by (rule synch_content(3))
    also have "\<dots> = header_at c stream k"
      using \<open>header_at c b ?j = header_at c stream (d + ?j)\<close> dj by simp
    finally have 3: "header_at c (memmove b 0 ?j (H - ?j)) 0 = header_at c stream k" .
    show ?thesis
      using 1 2 3 unfolding e by simp
  qed
  have one: "header_re_synch c b (length stream)
                  = (True, memmove b 0 k (length stream - k), length stream - k)
                \<and> take (length stream - k) (memmove b 0 k (length stream - k)) = drop k stream
                \<and> header_at c (memmove b 0 k (length stream - k)) 0 = header_at c stream k"
    if "length stream \<le> length b \<and> take (length stream) b = stream" for b
    using synch [of "length stream" b 0] that by simp
  have many: "\<exists>s1 b1 b2.
                   process_uart_calls c w (map (uart_delivers 0) chunks) (ingress_init c)
                     = Some (Inr s1)
                 \<and> state s1 = EXPECTING_HEADER \<and> core s1 = []
                 \<and> read_and_append_uart_received_data (uart_delivers 0 last_chunk) (buffer s1)
                       (buffer_head s1) (UART_BUFFER_SIZE c)
                     = Inr (b1, length last_chunk)
                 \<and> header_re_synch c b1 (buffer_head s1 + length last_chunk)
                     = (True, b2, length stream - k)
                 \<and> take (length stream - k) b2 = drop k stream
                 \<and> header_at c b2 0 = header_at c stream k
                 \<and> process_uart_iteration c w
                       (s1\<lparr>buffer := b1, buffer_head := buffer_head s1 + length last_chunk\<rparr>)
                     = Inr (True, s1\<lparr>buffer := b2, buffer_head := length stream - k,
                                     state := EXPECTING_PAYLOAD\<rparr>)"
    if a: "stream = concat chunks @ last_chunk
             \<and> chunks_fit c 0 (chunks @ [last_chunk])
             \<and> length (concat chunks) < k + ?r" for chunks last_chunk
  proof -
    let ?t = "concat chunks"
    let ?d = "length ?t - (?r - 1)"
    let ?n = "length last_chunk"
    from a have "chunks_fit c 0 (chunks @ [last_chunk])"
      by blast
    then have fit: "chunks_fit c 0 chunks \<and> last_chunk \<noteq> []
                 \<and> ?n \<le> UART_BUFFER_SIZE c - min (0 + length ?t) (?r - 1)"
      unfolding chunks_fit_snoc .
    have chs: "chunks_fit c (length ([] :: byte list)) chunks"
      and lc: "last_chunk \<noteq> []" "?n \<le> UART_BUFFER_SIZE c - min (length ?t) (?r - 1)"
      using fit by simp_all
    have str: "stream = ?t @ last_chunk"
      and tl: "length ?t < k + ?r"
      using a by simp_all
    have nvt: "\<forall>i. i + ?r \<le> length ([] @ ?t)
                 \<longrightarrow> \<not> validate_header c (header_at c ([] @ ?t) i)"
    proof (intro allI impI)
      fix i
      assume i: "i + ?r \<le> length ([] @ ?t)"
      then have e: "header_at c (?t @ last_chunk) i = header_at c ?t i"
        by (intro header_at_prefix) simp
      have "i < k"
        using i tl by simp
      then have "\<not> validate_header c (header_at c stream i)"
        using nv by blast
      then have "\<not> validate_header c (header_at c ?t i)"
        unfolding str e .
      then show "\<not> validate_header c (header_at c ([] @ ?t) i)"
        by simp
    qed
    have "\<exists>s'. process_uart_calls c w (map (uart_delivers 0) chunks) (ingress_init c) = Some (Inr s')
           \<and> state s' = EXPECTING_HEADER \<and> core s' = core (ingress_init c)
           \<and> length (buffer s') = UART_BUFFER_SIZE c
           \<and> buffer_head s' = length ([] @ ?t) - ?d
           \<and> take (buffer_head s') (buffer s') = drop ?d ([] @ ?t)"
      using r chs _ _ _ _ _ nvt
      by (rule seeking_calls [where t = "[]" and d = 0]) (simp_all add: ingress_init_def)
    then obtain s1 where s1:
      "process_uart_calls c w (map (uart_delivers 0) chunks) (ingress_init c) = Some (Inr s1)"
      "state s1 = EXPECTING_HEADER" "core s1 = []"
      "length (buffer s1) = UART_BUFFER_SIZE c"
      "buffer_head s1 = length ?t - ?d"
      "take (buffer_head s1) (buffer s1) = drop ?d ?t"
      by (auto simp: ingress_init_def)
    let ?h = "buffer_head s1"
    let ?H = "?h + ?n"
    let ?b1 = "memcpy (buffer s1) ?h last_chunk ?n"
    have hr: "?h \<le> ?r - 1"
      using s1(5) by simp
    have hm: "?h = min (length ?t) (?r - 1)"
      using s1(5) by arith
    have sp: "?n \<le> UART_BUFFER_SIZE c - ?h"
      using lc(2) hm by simp
    have hU: "?h \<le> UART_BUFFER_SIZE c"
      using hr r unfolding UART_BUFFER_SIZE_def by arith
    have Hc: "?H \<le> UART_BUFFER_SIZE c"
      using sp hU by simp
    have n0: "0 < ?n"
      using lc(1) by simp
    have rd: "read_and_append_uart_received_data (uart_delivers 0 last_chunk) (buffer s1) ?h
                (UART_BUFFER_SIZE c) = Inr (?b1, ?n)"
      using sp n0
      by (auto simp: read_and_append_uart_received_data_def uart_delivers_def available_bytes_def Let_def)
    have len1: "length ?b1 = UART_BUFFER_SIZE c"
      using Hc s1(4) by (simp add: length_memcpy)
    have dt: "?d \<le> length ?t"
      by simp
    have c1: "take ?H ?b1 = drop ?d stream"
    proof -
      have "take ?H ?b1 = take ?h (buffer s1) @ last_chunk"
        using Hc s1(4) by (intro take_memcpy) simp_all
      also have "\<dots> = drop ?d ?t @ last_chunk"
        by (simp only: s1(6))
      also have "\<dots> = drop ?d stream"
        using dt str by simp
      finally show ?thesis .
    qed
    have Hd: "?d + ?H = length stream"
      using s1(5) str by simp
    have dk: "?d \<le> k"
      using tl r by arith
    have Hl: "?H \<le> length ?b1"
      using Hc len1 by simp
    let ?b2 = "memmove ?b1 0 (k - ?d) (length stream - k)"
    from synch [OF c1 Hl dk Hd]
    have sy: "header_re_synch c ?b1 ?H = (True, ?b2, length stream - k)"
      "take (length stream - k) ?b2 = drop k stream"
      "header_at c ?b2 0 = header_at c stream k"
      by simp_all
    have it: "process_uart_iteration c w (s1\<lparr>buffer := ?b1, buffer_head := ?H\<rparr>)
                = Inr (True, s1\<lparr>buffer := ?b2, buffer_head := length stream - k,
                                state := EXPECTING_PAYLOAD\<rparr>)"
      using s1(2) sy(1) by (simp add: process_uart_iteration_def)
    show ?thesis
      using s1(1,2,3) rd sy it by blast
  qed
  from one many show ?thesis
    by blast
qed

lemma resynch_at_first_valid_header_example:
  "header_re_synch example_hdlc [1, 2, 3, 0x14, 2, 0, 0x16, 0, 0] 7
     = (True, [0x14, 2, 0, 0x16, 2, 0, 0x16, 0, 0], 4)
   \<and> (\<exists>s1 b1 b2.
         process_uart_calls example_hdlc (\<lambda>co f. int (length f))
             (map (uart_delivers 0) [[1, 2], [3, 0x14, 2]]) (ingress_init example_hdlc)
           = Some (Inr s1)
       \<and> state s1 = EXPECTING_HEADER \<and> core s1 = []
       \<and> read_and_append_uart_received_data (uart_delivers 0 [0, 0x16]) (buffer s1)
             (buffer_head s1) (UART_BUFFER_SIZE example_hdlc)
           = Inr (b1, 2)
       \<and> header_re_synch example_hdlc b1 (buffer_head s1 + 2) = (True, b2, 4)
       \<and> take 4 b2 = [0x14, 2, 0, 0x16]
       \<and> process_uart_iteration example_hdlc (\<lambda>co f. int (length f))
             (s1\<lparr>buffer := b1, buffer_head := buffer_head s1 + 2\<rparr>)
           = Inr (True, s1\<lparr>buffer := b2, buffer_head := 4, state := EXPECTING_PAYLOAD\<rparr>))"
proof -
  let ?stream = "[1, 2, 3, 0x14, 2, 0, 0x16] :: byte list"
  let ?w = "\<lambda>(co :: byte list list) (f :: byte list). int (length f)"
  have r4: "SLI_CPC_HDLC_HEADER_RAW_SIZE example_hdlc = 4"
    by (simp add: example_hdlc_def)
  have r: "0 < SLI_CPC_HDLC_HEADER_RAW_SIZE example_hdlc"
    by (simp add: r4)
  have u: "UART_BUFFER_SIZE example_hdlc = 4100"
    by (simp add: UART_BUFFER_SIZE_def r4)
  have kl: "3 + SLI_CPC_HDLC_HEADER_RAW_SIZE example_hdlc \<le> length ?stream"
    by (simp add: r4)
  have v: "validate_header example_hdlc (header_at example_hdlc ?stream 3)"
    by (simp add: header_at_def validate_header_def example_hdlc_def)
  have nv: "\<forall>i<3. \<not> validate_header example_hdlc (header_at example_hdlc ?stream i)"
  proof (intro allI impI)
    fix i :: nat
    assume "i < 3"
    then have "i = 0 \<or> i = 1 \<or> i = 2"
      by auto
    then show "\<not> validate_header example_hdlc (header_at example_hdlc ?stream i)"
      by (auto simp: header_at_def validate_header_def example_hdlc_def)
  qed
  note th = resynch_at_first_valid_header [OF r kl v nv, of ?w]
  have a: "length ?stream \<le> length (?stream @ [0, 0])
             \<and> take (length ?stream) (?stream @ [0, 0]) = ?stream"
    by simp
  have l: "length ?stream = 7" and l2: "length [0, 0x16 :: byte] = 2"
    by simp_all
  have n: "(7 :: nat) - 3 = 4"
    by simp
  from th [THEN conjunct1, rule_format, OF a, unfolded l n]
  have 1: "header_re_synch example_hdlc [1, 2, 3, 0x14, 2, 0, 0x16, 0, 0] 7
             = (True, [0x14, 2, 0, 0x16, 2, 0, 0x16, 0, 0], 4)"
    by (simp add: memmove_def)
  have b: "?stream = concat [[1, 2], [3, 0x14, 2]] @ [0, 0x16]
             \<and> chunks_fit example_hdlc 0 ([[1, 2], [3, 0x14, 2]] @ [[0, 0x16]])
             \<and> length (concat [[1, 2], [3, 0x14, 2 :: byte]])
                 < 3 + SLI_CPC_HDLC_HEADER_RAW_SIZE example_hdlc"
    by (simp add: r4 u)
  from th [THEN conjunct2, rule_format, OF b, unfolded l l2 n]
  obtain s1 b1 b2 where f:
    "process_uart_calls example_hdlc ?w
         (map (uart_delivers 0) [[1, 2], [3, 0x14, 2]]) (ingress_init example_hdlc)
       = Some (Inr s1)"
    "state s1 = EXPECTING_HEADER" "core s1 = []"
    "read_and_append_uart_received_data (uart_delivers 0 [0, 0x16]) (buffer s1)
         (buffer_head s1) (UART_BUFFER_SIZE example_hdlc)
       = Inr (b1, 2)"
    "header_re_synch example_hdlc b1 (buffer_head s1 + 2) = (True, b2, 4)"
    "take 4 b2 = drop 3 ?stream"
    "process_uart_iteration example_hdlc ?w
         (s1\<lparr>buffer := b1, buffer_head := buffer_head s1 + 2\<rparr>)
       = Inr (True, s1\<lparr>buffer := b2, buffer_head := 4, state := EXPECTING_PAYLOAD\<rparr>)"
    by blast
  have t: "take 4 b2 = [0x14, 2, 0, 0x16]"
    using f(6) by simp
  have 2: "\<exists>s1 b1 b2.
         process_uart_calls example_hdlc ?w
             (map (uart_delivers 0) [[1, 2], [3, 0x14, 2]]) (ingress_init example_hdlc)
           = Some (Inr s1)
       \<and> state s1 = EXPECTING_HEADER \<and> core s1 = []
       \<and> read_and_append_uart_received_data (uart_delivers 0 [0, 0x16]) (buffer s1)
             (buffer_head s1) (UART_BUFFER_SIZE example_hdlc)
           = Inr (b1, 2)
       \<and> header_re_synch example_hdlc b1 (buffer_head s1 + 2) = (True, b2, 4)
       \<and> take 4 b2 = [0x14, 2, 0, 0x16]
       \<and> process_uart_iteration example_hdlc ?w
             (s1\<lparr>buffer := b1, buffer_head := buffer_head s1 + 2\<rparr>)
           = Inr (True, s1\<lparr>buffer := b2, buffer_head := 4, state := EXPECTING_PAYLOAD\<rparr>)"
    using f(1-5) t f(7) by blast
  from 1 2 show ?thesis
    by (intro conjI)
qed

subsection \<open>The count of bytes available\<close>

text \<open>
  When the upper half of \<^verbatim>\<open>available_bytes\<close> is not zero, the driver takes more bytes
  to be available than the buffer has room for and asks \<^verbatim>\<open>read\<close> for all the space
  that is free. Unless exactly that many bytes are pending, \<^verbatim>\<open>read\<close> returns fewer
  and the driver exits.
\<close>

lemma stale_upper_half_is_fatal:
  assumes "0 < upper" and "pending \<noteq> []" and "length pending < sz - h" and "sz - h \<le> 2 ^ 32"
  shows "read_and_append_uart_received_data (uart_delivers upper pending) b h sz
           = Inl (FATAL_ON ''(size_t) read_retval != actual_read_bytes'')"
proof -
  have "2 ^ 32 \<le> upper * (2 ^ 32 :: nat)"
    using assms(1) by simp
  then have "\<not> upper * 2 ^ 32 + length pending < sz - h"
    using assms(4) by linarith
  then show ?thesis
    using assms(2,3)
    by (simp add: read_and_append_uart_received_data_def uart_delivers_def available_bytes_def
          Let_def)
qed

text \<open>
  Claim C1. The sequence 1, 2, 3, 0x14, 2, 0, 0x16 holds one valid header of the example
  codec, at offset 3, and none at an offset before. It arrives in one chunk at program
  start, and \<^verbatim>\<open>FIONREAD\<close> stores the count 7 in the lower half of
  \<^verbatim>\<open>available_bytes\<close>. With \<^verbatim>\<open>0x7FFC\<close> in the upper half, as the upper half of a
  stack address on x86-64 reads, the driver asks \<^verbatim>\<open>read\<close> for the 4100 bytes that are
  free, receives 7 and exits: it does not synchronise at the header. With zero in the
  upper half the same wake drops the three leading bytes and returns with the header at
  offset 0, a head of 4 and the state \<^verbatim>\<open>EXPECTING_PAYLOAD\<close>.
\<close>

theorem C1_stale_upper_half_is_fatal:
  "validate_header example_hdlc (header_at example_hdlc [1, 2, 3, 0x14, 2, 0, 0x16] 3)
   \<and> \<not> validate_header example_hdlc (header_at example_hdlc [1, 2, 3, 0x14, 2, 0, 0x16] 0)
   \<and> \<not> validate_header example_hdlc (header_at example_hdlc [1, 2, 3, 0x14, 2, 0, 0x16] 1)
   \<and> \<not> validate_header example_hdlc (header_at example_hdlc [1, 2, 3, 0x14, 2, 0, 0x16] 2)
   \<and> driver_uart_process_uart example_hdlc (\<lambda>co f. int (length f))
         (uart_delivers 0x7FFC [1, 2, 3, 0x14, 2, 0, 0x16]) (ingress_init example_hdlc)
       = Some (Inl (FATAL_ON ''(size_t) read_retval != actual_read_bytes''))
   \<and> driver_uart_process_uart example_hdlc (\<lambda>co f. int (length f))
         (uart_delivers 0 [1, 2, 3, 0x14, 2, 0, 0x16]) (ingress_init example_hdlc)
       = Some (Inr \<lparr>buffer = 0x14 # 2 # 0 # 0x16 # 2 # 0 # 0x16 # replicate 4093 0,
                    buffer_head = 4, state = EXPECTING_PAYLOAD, core = []\<rparr>)"
proof -
  let ?stream = "[1, 2, 3, 0x14, 2, 0, 0x16] :: byte list"
  let ?w = "\<lambda>(co :: byte list list) (f :: byte list). int (length f)"
  have v: "validate_header example_hdlc (header_at example_hdlc ?stream 3)"
    "\<not> validate_header example_hdlc (header_at example_hdlc ?stream 0)"
    "\<not> validate_header example_hdlc (header_at example_hdlc ?stream 1)"
    "\<not> validate_header example_hdlc (header_at example_hdlc ?stream 2)"
    by (simp_all add: validate_header_def header_at_def example_hdlc_def)
  have u: "UART_BUFFER_SIZE example_hdlc = 4100"
    by (simp add: UART_BUFFER_SIZE_def example_hdlc_def)
  have rd1: "read_and_append_uart_received_data (uart_delivers 0x7FFC ?stream) (replicate 4100 0) 0 4100
               = Inl (FATAL_ON ''(size_t) read_retval != actual_read_bytes'')"
    by (simp add: read_and_append_uart_received_data_def uart_delivers_def available_bytes_def)
  have f: "driver_uart_process_uart example_hdlc ?w (uart_delivers 0x7FFC ?stream)
             (ingress_init example_hdlc)
           = Some (Inl (FATAL_ON ''(size_t) read_retval != actual_read_bytes''))"
    by (simp add: driver_uart_process_uart_def ingress_init_def u rd1)
  let ?b = "1 # 2 # 3 # 0x14 # 2 # 0 # 0x16 # replicate 4093 (0 :: byte)"
  have rd0: "read_and_append_uart_received_data (uart_delivers 0 ?stream) (replicate 4100 0) 0 4100
               = Inr (?b, 7)"
    by (simp add: read_and_append_uart_received_data_def uart_delivers_def available_bytes_def
          memcpy_def)
  let ?b2 = "0x14 # 2 # 0 # 0x16 # 2 # 0 # 0x16 # replicate 4093 (0 :: byte)"
  have sy: "header_re_synch example_hdlc ?b 7 = (True, ?b2, 4)"
    by (simp add: header_re_synch_def header_re_synch_loop.simps validate_header_def
          header_at_def example_hdlc_def memmove_def)
  have dl: "delimit_and_push_frames_to_core example_hdlc ?w [] ?b2 4 = Inr (False, ?b2, 4, [])"
    by (simp add: delimit_and_push_frames_to_core_def header_at_def example_hdlc_def)
  let ?s2 = "\<lparr>buffer = ?b2, buffer_head = 4, state = EXPECTING_PAYLOAD, core = []\<rparr>"
  have l2: "process_uart_loop example_hdlc ?w ?s2 = Some (Inr ?s2)"
    by (subst process_uart_loop.simps) (simp add: process_uart_iteration_def dl)
  have l1: "process_uart_loop example_hdlc ?w
              \<lparr>buffer = ?b, buffer_head = 7, state = EXPECTING_HEADER, core = []\<rparr>
            = Some (Inr ?s2)"
    by (subst process_uart_loop.simps) (simp add: process_uart_iteration_def sy l2)
  have g: "driver_uart_process_uart example_hdlc ?w (uart_delivers 0 ?stream)
             (ingress_init example_hdlc)
           = Some (Inr ?s2)"
    by (simp add: driver_uart_process_uart_def ingress_init_def u rd0 l1)
  from v f g show ?thesis
    by (intro conjI)
qed

subsection \<open>Delimiting a frame\<close>

text \<open>
  Claim C2. With \<open>frame_size\<close> the payload length read from the header at offset 0 plus
  the header size: \<^verbatim>\<open>delimit_and_push_frames_to_core\<close> returns false and changes
  nothing when fewer bytes than a header are buffered, and when fewer than \<open>frame_size\<close>
  are. Otherwise it writes the first \<open>frame_size\<close> buffered bytes to the core; when the
  write is complete it returns true, the bytes from \<open>frame_size\<close> up to the old head are at
  offset 0 and the head is smaller by \<open>frame_size\<close>; when the write is not complete the
  call is fatal. A header that announces no payload is emitted alone.
\<close>

theorem C2_delimit_and_push:
  assumes "h \<le> length b"
    and "frame_size = unat (hdlc_get_length c (header_at c b 0)) + SLI_CPC_HDLC_HEADER_RAW_SIZE c"
    and "b' = memmove b 0 frame_size (h - frame_size)"
  shows "(h < SLI_CPC_HDLC_HEADER_RAW_SIZE c
            \<longrightarrow> delimit_and_push_frames_to_core c w co b h = Inr (False, b, h, co))
       \<and> (SLI_CPC_HDLC_HEADER_RAW_SIZE c \<le> h \<and> h < frame_size
            \<longrightarrow> delimit_and_push_frames_to_core c w co b h = Inr (False, b, h, co))
       \<and> (SLI_CPC_HDLC_HEADER_RAW_SIZE c \<le> h \<and> frame_size \<le> h
            \<and> w co (take frame_size b) = int frame_size
            \<longrightarrow> delimit_and_push_frames_to_core c w co b h
                  = Inr (True, b', h - frame_size, co @ [take frame_size (take h b)])
                \<and> length b' = length b
                \<and> take (h - frame_size) b' = drop frame_size (take h b))
       \<and> (SLI_CPC_HDLC_HEADER_RAW_SIZE c \<le> h \<and> frame_size \<le> h
            \<and> w co (take frame_size b) \<noteq> int frame_size
            \<longrightarrow> (\<exists>e. delimit_and_push_frames_to_core c w co b h = Inl e))
       \<and> (SLI_CPC_HDLC_HEADER_RAW_SIZE c \<le> h \<and> hdlc_get_length c (header_at c b 0) = 0
            \<and> w co (header_at c b 0) = int (SLI_CPC_HDLC_HEADER_RAW_SIZE c)
            \<longrightarrow> delimit_and_push_frames_to_core c w co b h
                  = Inr (True, b', h - SLI_CPC_HDLC_HEADER_RAW_SIZE c, co @ [header_at c b 0]))"
proof (intro conjI impI)
  let ?r = "SLI_CPC_HDLC_HEADER_RAW_SIZE c"
  have fs: "unat (hdlc_get_length c (header_at c b 0)) + ?r = frame_size"
    using assms(2) by simp
  show "delimit_and_push_frames_to_core c w co b h = Inr (False, b, h, co)" if "h < ?r"
    using that by (simp add: delimit_and_push_frames_to_core_def)
  show "delimit_and_push_frames_to_core c w co b h = Inr (False, b, h, co)"
    if "?r \<le> h \<and> h < frame_size"
    using that by (simp add: delimit_and_push_frames_to_core_def fs Let_def)
  {
    assume a: "?r \<le> h \<and> frame_size \<le> h \<and> w co (take frame_size b) = int frame_size"
    have tt: "take frame_size (take h b) = take frame_size b"
      using a by (simp add: min_def)
    show "delimit_and_push_frames_to_core c w co b h
            = Inr (True, b', h - frame_size, co @ [take frame_size (take h b)])"
      using a by (simp add: delimit_and_push_frames_to_core_def fs Let_def tt assms(3))
    show "length b' = length b"
      unfolding assms(3) using a assms(1) by (intro length_memmove) simp
    have "take (h - frame_size) b' = take (h - frame_size) (drop frame_size b)"
      unfolding assms(3) using a assms(1) by (intro take_memmove) simp
    also have "\<dots> = drop frame_size (take h b)"
      using a by (intro moved_suffix) simp
    finally show "take (h - frame_size) b' = drop frame_size (take h b)" .
  }
  show "\<exists>e. delimit_and_push_frames_to_core c w co b h = Inl e"
    if "?r \<le> h \<and> frame_size \<le> h \<and> w co (take frame_size b) \<noteq> int frame_size"
    using that by (auto simp add: delimit_and_push_frames_to_core_def fs Let_def)
  {
    assume a: "?r \<le> h \<and> hdlc_get_length c (header_at c b 0) = 0
                 \<and> w co (header_at c b 0) = int ?r"
    then have f: "frame_size = ?r"
      using assms(2) by simp
    have hd: "header_at c b 0 = take ?r b"
      by (simp add: header_at_def)
    show "delimit_and_push_frames_to_core c w co b h
            = Inr (True, b', h - ?r, co @ [header_at c b 0])"
      using a by (simp add: delimit_and_push_frames_to_core_def Let_def assms(3) f hd [symmetric])
  }
qed

theorem C2_delimit_and_push_witness:
  "delimit_and_push_frames_to_core example_hdlc (\<lambda>co f. int (length f)) []
     [0x14, 2, 0, 0x16, 0xAA, 0xBB, 0x77, 0] 3
     = Inr (False, [0x14, 2, 0, 0x16, 0xAA, 0xBB, 0x77, 0], 3, [])
   \<and> delimit_and_push_frames_to_core example_hdlc (\<lambda>co f. int (length f)) []
     [0x14, 2, 0, 0x16, 0xAA, 0xBB, 0x77, 0] 5
     = Inr (False, [0x14, 2, 0, 0x16, 0xAA, 0xBB, 0x77, 0], 5, [])
   \<and> delimit_and_push_frames_to_core example_hdlc (\<lambda>co f. int (length f)) []
     [0x14, 2, 0, 0x16, 0xAA, 0xBB, 0x77, 0] 7
     = Inr (True, [0x77, 2, 0, 0x16, 0xAA, 0xBB, 0x77, 0], 1, [[0x14, 2, 0, 0x16, 0xAA, 0xBB]])
   \<and> (\<exists>e. delimit_and_push_frames_to_core example_hdlc (\<lambda>co f. 3) []
     [0x14, 2, 0, 0x16, 0xAA, 0xBB, 0x77, 0] 7 = Inl e)
   \<and> delimit_and_push_frames_to_core example_hdlc (\<lambda>co f. int (length f)) []
     [0x14, 0, 0, 0x14, 0xAA, 0xBB, 0x77, 0] 5
     = Inr (True, [0xAA, 0, 0, 0x14, 0xAA, 0xBB, 0x77, 0], 1, [[0x14, 0, 0, 0x14]])"
proof -
  let ?b = "[0x14, 2, 0, 0x16, 0xAA, 0xBB, 0x77, 0] :: byte list"
  let ?z = "[0x14, 0, 0, 0x14, 0xAA, 0xBB, 0x77, 0] :: byte list"
  let ?w = "\<lambda>(co :: byte list list) (f :: byte list). int (length f)"
  have r: "SLI_CPC_HDLC_HEADER_RAW_SIZE example_hdlc = 4"
    by (simp add: example_hdlc_def)
  have fb: "(6::nat) = unat (hdlc_get_length example_hdlc (header_at example_hdlc ?b 0))
              + SLI_CPC_HDLC_HEADER_RAW_SIZE example_hdlc"
    by (simp add: example_hdlc_def header_at_def)
  have fz: "(4::nat) = unat (hdlc_get_length example_hdlc (header_at example_hdlc ?z 0))
              + SLI_CPC_HDLC_HEADER_RAW_SIZE example_hdlc"
    by (simp add: example_hdlc_def header_at_def)
  have z0: "hdlc_get_length example_hdlc (header_at example_hdlc ?z 0) = 0"
    by (simp add: example_hdlc_def header_at_def)
  have hz: "header_at example_hdlc ?z 0 = [0x14, 0, 0, 0x14]"
    by (simp add: example_hdlc_def header_at_def)
  have 1: "delimit_and_push_frames_to_core example_hdlc ?w [] ?b 3 = Inr (False, ?b, 3, [])"
    using C2_delimit_and_push [of 3 ?b 6 example_hdlc _ ?w "[]", OF _ fb refl]
    by (simp add: r)
  have 2: "delimit_and_push_frames_to_core example_hdlc ?w [] ?b 5 = Inr (False, ?b, 5, [])"
    using C2_delimit_and_push [of 5 ?b 6 example_hdlc _ ?w "[]", OF _ fb refl]
    by (simp add: r)
  have 3: "delimit_and_push_frames_to_core example_hdlc ?w [] ?b 7
     = Inr (True, [0x77, 2, 0, 0x16, 0xAA, 0xBB, 0x77, 0], 1, [[0x14, 2, 0, 0x16, 0xAA, 0xBB]])"
    using C2_delimit_and_push [of 7 ?b 6 example_hdlc _ ?w "[]", OF _ fb refl]
    by (simp add: r memmove_def)
  have 4: "\<exists>e. delimit_and_push_frames_to_core example_hdlc (\<lambda>co f. 3) [] ?b 7 = Inl e"
    using C2_delimit_and_push [of 7 ?b 6 example_hdlc _ "\<lambda>co f. 3" "[]", OF _ fb refl]
    by (simp add: r)
  have 5: "delimit_and_push_frames_to_core example_hdlc ?w [] ?z 5
     = Inr (True, [0xAA, 0, 0, 0x14, 0xAA, 0xBB, 0x77, 0], 1, [[0x14, 0, 0, 0x14]])"
    using C2_delimit_and_push [of 5 ?z 4 example_hdlc _ ?w "[]", OF _ fz refl]
    by (simp add: r memmove_def z0 hz)
  show ?thesis
    using 1 2 3 4 5 by (intro conjI)
qed

subsection \<open>No header in the buffer\<close>

text \<open>
  Claim C3. Let the synchroniser be in \<^verbatim>\<open>EXPECTING_HEADER\<close> with at least a header's
  worth of bytes buffered, and let no header-sized window inside the buffered bytes
  validate. Then \<^verbatim>\<open>header_re_synch\<close> returns false and sets \<^verbatim>\<open>buffer_head\<close> to
  \<^verbatim>\<open>SLI_CPC_HDLC_HEADER_RAW_SIZE - 1\<close>; the array keeps its size; its first
  \<^verbatim>\<open>SLI_CPC_HDLC_HEADER_RAW_SIZE - 1\<close> bytes are the last that many of the bytes that
  were buffered; and the loop of \<^verbatim>\<open>driver_uart_process_uart\<close> returns at once, still in
  \<^verbatim>\<open>EXPECTING_HEADER\<close>.
\<close>

theorem C3_no_header_keeps_suffix:
  assumes "0 < SLI_CPC_HDLC_HEADER_RAW_SIZE c"
    and "state s = EXPECTING_HEADER"
    and "SLI_CPC_HDLC_HEADER_RAW_SIZE c \<le> buffer_head s"
    and "buffer_head s \<le> length (buffer s)"
    and "\<forall>i. i + SLI_CPC_HDLC_HEADER_RAW_SIZE c \<le> buffer_head s
           \<longrightarrow> \<not> validate_header c (header_at c (buffer s) i)"
    and "b' = memmove (buffer s) 0 (buffer_head s - SLI_CPC_HDLC_HEADER_RAW_SIZE c + 1)
                (SLI_CPC_HDLC_HEADER_RAW_SIZE c - 1)"
  shows "header_re_synch c (buffer s) (buffer_head s)
           = (False, b', SLI_CPC_HDLC_HEADER_RAW_SIZE c - 1)
         \<and> length b' = length (buffer s)
         \<and> take (SLI_CPC_HDLC_HEADER_RAW_SIZE c - 1) b'
             = drop (buffer_head s - (SLI_CPC_HDLC_HEADER_RAW_SIZE c - 1))
                 (take (buffer_head s) (buffer s))
         \<and> process_uart_loop c write_core s
             = Some (Inr (s\<lparr>buffer := b', buffer_head := SLI_CPC_HDLC_HEADER_RAW_SIZE c - 1\<rparr>))
         \<and> state (s\<lparr>buffer := b', buffer_head := SLI_CPC_HDLC_HEADER_RAW_SIZE c - 1\<rparr>)
             = EXPECTING_HEADER"
proof -
  let ?r = "SLI_CPC_HDLC_HEADER_RAW_SIZE c"
  have rs: "header_re_synch c (buffer s) (buffer_head s) = (False, b', ?r - 1)"
    unfolding assms(6) using assms(3,5) by (rule header_re_synch_none)
  have len: "length b' = length (buffer s)"
    unfolding assms(6) using assms(1,3,4) by (intro length_memmove) simp
  have cont: "take (?r - 1) b' = drop (buffer_head s - (?r - 1)) (take (buffer_head s) (buffer s))"
    unfolding assms(6) using assms(1,3,4) by (rule suffix_content)
  have it: "process_uart_iteration c write_core s
              = Inr (False, s\<lparr>buffer := b', buffer_head := ?r - 1\<rparr>)"
    using assms(2) rs by (simp add: process_uart_iteration_def)
  have lp: "process_uart_loop c write_core s
              = Some (Inr (s\<lparr>buffer := b', buffer_head := ?r - 1\<rparr>))"
    by (subst process_uart_loop.simps) (simp add: it)
  have st: "state (s\<lparr>buffer := b', buffer_head := ?r - 1\<rparr>) = EXPECTING_HEADER"
    using assms(2) by simp
  show ?thesis
    using rs len cont lp st by (intro conjI)
qed

theorem C3_no_header_keeps_suffix_witness:
  "header_re_synch example_hdlc [1, 2, 3, 4, 5, 6, 0, 0] 6 = (False, [4, 5, 6, 4, 5, 6, 0, 0], 3)
   \<and> process_uart_loop example_hdlc (\<lambda>co f. int (length f))
       \<lparr>buffer = [1, 2, 3, 4, 5, 6, 0, 0], buffer_head = 6, state = EXPECTING_HEADER, core = []\<rparr>
     = Some (Inr \<lparr>buffer = [4, 5, 6, 4, 5, 6, 0, 0], buffer_head = 3,
                   state = EXPECTING_HEADER, core = []\<rparr>)"
proof -
  let ?s = "\<lparr>buffer = [1, 2, 3, 4, 5, 6, 0, 0], buffer_head = 6,
             state = EXPECTING_HEADER, core = []\<rparr>"
  have r: "SLI_CPC_HDLC_HEADER_RAW_SIZE example_hdlc = 4"
    by (simp add: example_hdlc_def)
  have h1: "0 < SLI_CPC_HDLC_HEADER_RAW_SIZE example_hdlc"
    by (simp add: r)
  have h2: "state ?s = EXPECTING_HEADER"
    by simp
  have h3: "SLI_CPC_HDLC_HEADER_RAW_SIZE example_hdlc \<le> buffer_head ?s"
    by (simp add: r)
  have h4: "buffer_head ?s \<le> length (buffer ?s)"
    by simp
  have h5: "\<forall>i. i + SLI_CPC_HDLC_HEADER_RAW_SIZE example_hdlc \<le> buffer_head ?s
              \<longrightarrow> \<not> validate_header example_hdlc (header_at example_hdlc (buffer ?s) i)"
  proof (intro allI impI)
    fix i
    assume "i + SLI_CPC_HDLC_HEADER_RAW_SIZE example_hdlc \<le> buffer_head ?s"
    then have "i = 0 \<or> i = 1 \<or> i = 2"
      by (auto simp: r)
    then show "\<not> validate_header example_hdlc (header_at example_hdlc (buffer ?s) i)"
      by (auto simp: header_at_def validate_header_def example_hdlc_def)
  qed
  have h6: "[4, 5, 6, 4, 5, 6, 0, 0]
              = memmove (buffer ?s) 0
                  (buffer_head ?s - SLI_CPC_HDLC_HEADER_RAW_SIZE example_hdlc + 1)
                  (SLI_CPC_HDLC_HEADER_RAW_SIZE example_hdlc - 1)"
    by (simp add: r memmove_def)
  from C3_no_header_keeps_suffix [OF h1 h2 h3 h4 h5 h6, of "\<lambda>co f. int (length f)"]
  show ?thesis
    by (simp add: r)
qed

subsection \<open>Appending what was read\<close>



subsection \<open>The sleep times of the egress pacer\<close>

lemmas time_usec_eval =
  time_usec_def int_mul_def double_div_def double_mul_def double_of_int_def
  unsigned_of_double_def binary64_def floor_log2_def round_to_even_def Let_def bit_length.simps

text \<open>
  One tenth is no \<^verbatim>\<open>double\<close>; the nearest one is \<^verbatim>\<open>0x1.999999999999ap-4\<close>. The
  rounding shows in the sleeps: for 1809 bytes at 115200 bits per second the exact time is
  125625 microseconds, the quotient is rounded down, and the driver sleeps one microsecond
  less.
\<close>

lemma binary64_one_tenth:
  "binary64 1 10 = (7205759403792794, - 56)"
  by (simp add: binary64_def floor_log2_def round_to_even_def Let_def bit_length.simps)

lemma time_usec_rounds_down:
  "time_usec 1809 115200 = Some 125624 \<and> 1809 * 8 * 1000000 div 115200 = (125625 :: int)"
  by (simp add: time_usec_eval)

text \<open>
  At each bit rate of the table \<^verbatim>\<open>conversion\<close> the idle time is the time of
  \<^verbatim>\<open>20 * 8\<close> bits in whole microseconds.
\<close>

lemma idle_time_usec:
  "(uart_bitrate, symbolic) \<in> set (conversion t) \<Longrightarrow>
   time_usec 20 uart_bitrate = Some (word_of_int (20 * 8 * 1000000 div uint uart_bitrate))"
proof -
  assume "(uart_bitrate, symbolic) \<in> set (conversion t)"
  then consider "uart_bitrate = 9600" | "uart_bitrate = 19200" | "uart_bitrate = 38400"
    | "uart_bitrate = 57600" | "uart_bitrate = 115200" | "uart_bitrate = 230400"
    | "uart_bitrate = 460800" | "uart_bitrate = 921600"
    by (auto simp: conversion_def)
  then show ?thesis
  proof cases
    case 1 then show ?thesis by (simp add: time_usec_eval)
  next
    case 2 then show ?thesis by (simp add: time_usec_eval)
  next
    case 3 then show ?thesis by (simp add: time_usec_eval)
  next
    case 4 then show ?thesis by (simp add: time_usec_eval)
  next
    case 5 then show ?thesis by (simp add: time_usec_eval)
  next
    case 6 then show ?thesis by (simp add: time_usec_eval)
  next
    case 7 then show ?thesis by (simp add: time_usec_eval)
  next
    case 8 then show ?thesis by (simp add: time_usec_eval)
  qed
qed

subsection \<open>The order of calls in the egress pacer\<close>

lemma drain_loop_drained:
  "drain_loop rate k polls = (calls, None) \<Longrightarrow>
   (k = 0 \<and> calls = []) \<or> (\<exists>pre. calls = pre @ [TIOCOUTQ 0])"
proof (induction polls arbitrary: k calls)
  case Nil
  then show ?case
    by (simp split: if_splits option.splits)
next
  case (Cons p polls)
  obtain ret depth where p: "p = (ret, depth)"
    by (cases p)
  show ?case
  proof (cases "k = 0")
    case True
    with Cons.prems p show ?thesis
      by simp
  next
    case False
    let ?k' = "if ret < 0 then k else depth"
    obtain calls' e where d: "drain_loop rate ?k' polls = (calls', e)"
      by (cases "drain_loop rate ?k' polls")
    from Cons.prems False p d
    obtain usec where c: "calls = Usleep usec # TIOCOUTQ ?k' # calls'" and dr: "e = None"
      by (auto simp: Let_def split: option.splits)
    have d': "drain_loop rate ?k' polls = (calls', None)"
      using d dr by simp
    from Cons.IH [OF d']
    have "(?k' = 0 \<and> calls' = []) \<or> (\<exists>pre. calls' = pre @ [TIOCOUTQ 0])" .
    then show ?thesis
    proof
      assume "?k' = 0 \<and> calls' = []"
      then have "calls = [Usleep usec] @ [TIOCOUTQ 0]"
        using c by simp
      then show ?thesis
        by blast
    next
      assume "\<exists>pre. calls' = pre @ [TIOCOUTQ 0]"
      then obtain pre where "calls' = pre @ [TIOCOUTQ 0]"
        by blast
      then have "calls = (Usleep usec # TIOCOUTQ ?k' # pre) @ [TIOCOUTQ 0]"
        using c by simp
      then show ?thesis
        by blast
    qed
  qed
qed

lemma drain_loop_no_write:
  "drain_loop rate k polls = (calls, e) \<Longrightarrow> Write_uart m \<notin> set calls"
proof (induction polls arbitrary: k calls e)
  case Nil
  then show ?case
    by (auto split: if_splits option.splits)
next
  case (Cons p polls)
  obtain ret depth where p: "p = (ret, depth)"
    by (cases p)
  show ?case
  proof (cases "k = 0 \<or> time_usec k rate = None")
    case True
    with Cons.prems p show ?thesis
      by (auto split: if_splits)
  next
    case False
    let ?k' = "if ret < 0 then k else depth"
    obtain calls' e' where d: "drain_loop rate ?k' polls = (calls', e')"
      by (cases "drain_loop rate ?k' polls")
    from Cons.prems False p d
    obtain usec where c: "calls = Usleep usec # TIOCOUTQ ?k' # calls'"
      by (auto simp: Let_def split: option.splits)
    from Cons.IH [OF d]
    show ?thesis
      using c by simp
  qed
qed

lemma drain_loop_decreasing:
  assumes "\<forall>k<n. time_usec (int (Suc k)) rate = Some (usec k)"
  shows "drain_loop rate (int n) (map (\<lambda>k. (0, int k)) (rev [0..<n]))
           = (concat (map (\<lambda>k. [Usleep (usec k), TIOCOUTQ (int k)]) (rev [0..<n])), None)"
  using assms
proof (induction n)
  case 0
  show ?case by simp
next
  case (Suc n)
  have t: "time_usec (int (Suc n)) rate = Some (usec n)"
    using Suc.prems by simp
  have ih: "drain_loop rate (int n) (map (\<lambda>k. (0, int k)) (rev [0..<n]))
           = (concat (map (\<lambda>k. [Usleep (usec k), TIOCOUTQ (int k)]) (rev [0..<n])), None)"
    using Suc.IH Suc.prems by simp
  have "drain_loop rate (int (Suc n)) (map (\<lambda>k. (0, int k)) (rev [0..<Suc n]))
          = drain_loop rate (int (Suc n)) ((0, int n) # map (\<lambda>k. (0, int k)) (rev [0..<n]))"
    by simp
  also have "\<dots> = (Usleep (usec n) # TIOCOUTQ (int n)
                      # concat (map (\<lambda>k. [Usleep (usec k), TIOCOUTQ (int k)]) (rev [0..<n])),
                     None)"
    using t by (simp add: ih Let_def del: upt_Suc)
  finally show ?case
    by simp
qed

text \<open>
  Claim C5. Whatever the system answers, if \<^verbatim>\<open>driver_uart_process_core\<close> writes to
  the link, the write is its last call, the call before it is \<^verbatim>\<open>usleep\<close> for the idle
  time, the value of \<^verbatim>\<open>(unsigned int)(((double)(20 * 8) / uart_bitrate) * 1000000)\<close>,
  the call before that is a poll of the transmit queue that found it empty, and nothing is
  written earlier. At each bit rate the link can be opened with, the idle time is the time
  20 bytes of 8 bits take at that rate, in microseconds, rounded down. When the polls see
  the depths \<open>n, n - 1, ..., 0\<close> and the sleep times are defined, the calls are: the read
  from the core; for each depth above zero the poll and a sleep for that many bytes; the
  poll that sees 0, the idle sleep and the write.
\<close>

theorem C5_write_after_drain_and_idle:
  "(\<forall>m. Write_uart m \<in> set (fst (driver_uart_process_core uart_bitrate w))
      \<longrightarrow> (\<exists>pre usec. fst (driver_uart_process_core uart_bitrate w)
                         = pre @ [TIOCOUTQ 0, Usleep usec, Write_uart m]
                     \<and> time_usec 20 uart_bitrate = Some usec
                     \<and> (\<forall>m'. Write_uart m' \<notin> set pre)))
   \<and> (\<forall>symbolic. (uart_bitrate, symbolic) \<in> set (conversion t)
        \<longrightarrow> time_usec 20 uart_bitrate
              = Some (word_of_int (20 * 8 * 1000000 div uint uart_bitrate)))
   \<and> (0 \<le> core_read_retval w \<and> first_TIOCOUTQ w = (0, int n)
        \<and> later_TIOCOUTQ w = map (\<lambda>k. (0, int k)) (rev [0..<n])
        \<and> (\<forall>k<n. time_usec (int (Suc k)) uart_bitrate = Some (sleep k))
        \<and> time_usec 20 uart_bitrate = Some idle
      \<longrightarrow> driver_uart_process_core uart_bitrate w
            = (Read_core # TIOCOUTQ (int n)
                 # concat (map (\<lambda>k. [Usleep (sleep k), TIOCOUTQ (int k)]) (rev [0..<n]))
                 @ [Usleep idle,
                    Write_uart (take (nat (core_read_retval w)) (core_read_buffer w))],
               if uart_write_retval w (take (nat (core_read_retval w)) (core_read_buffer w)) < 0
                 then Exited (FATAL_SYSCALL_ON ''write_retval < 0'')
               else if nat (uart_write_retval w
                              (take (nat (core_read_retval w)) (core_read_buffer w)))
                         \<noteq> nat (core_read_retval w)
                 then Exited (FATAL_ON ''(size_t)write_retval != (size_t)read_retval'')
               else Returned))"
proof (intro conjI allI impI)
  fix m
  let ?tr = "fst (driver_uart_process_core uart_bitrate w)"
  assume wr: "Write_uart m \<in> set ?tr"
  obtain ret k where f: "first_TIOCOUTQ w = (ret, k)"
    by (cases "first_TIOCOUTQ w")
  obtain calls e where d: "drain_loop uart_bitrate k (later_TIOCOUTQ w) = (calls, e)"
    by (cases "drain_loop uart_bitrate k (later_TIOCOUTQ w)")
  have nw: "Write_uart m' \<notin> set calls" for m'
    using d by (rule drain_loop_no_write)
  let ?msg = "take (nat (core_read_retval w)) (core_read_buffer w)"
  have ok: "\<not> core_read_retval w < 0" "\<not> ret < 0" "\<not> k < 0" "e = None"
      "time_usec 20 uart_bitrate \<noteq> None"
    using wr f d nw
    by (auto simp: driver_uart_process_core_def Let_def split: if_splits option.splits)
  then obtain usec where u: "time_usec 20 uart_bitrate = Some usec"
    by blast
  have tr: "?tr = Read_core # TIOCOUTQ k # calls @ [Usleep usec, Write_uart ?msg]"
    using ok f d u by (simp add: driver_uart_process_core_def Let_def)
  have m: "m = ?msg"
    using wr nw unfolding tr by auto
  have d': "drain_loop uart_bitrate k (later_TIOCOUTQ w) = (calls, None)"
    using d ok(4) by simp
  from drain_loop_drained [OF d']
  show "\<exists>pre usec. ?tr = pre @ [TIOCOUTQ 0, Usleep usec, Write_uart m]
          \<and> time_usec 20 uart_bitrate = Some usec
          \<and> (\<forall>m'. Write_uart m' \<notin> set pre)"
  proof
    assume "k = 0 \<and> calls = []"
    then have "?tr = [Read_core] @ [TIOCOUTQ 0, Usleep usec, Write_uart m]"
      unfolding tr m by simp
    moreover have "\<forall>m'. Write_uart m' \<notin> set [Read_core]"
      by simp
    ultimately show ?thesis
      using u by blast
  next
    assume "\<exists>pre. calls = pre @ [TIOCOUTQ 0]"
    then obtain pre where p: "calls = pre @ [TIOCOUTQ 0]"
      by blast
    have "?tr = (Read_core # TIOCOUTQ k # pre) @ [TIOCOUTQ 0, Usleep usec, Write_uart m]"
      unfolding tr m p by simp
    moreover have "\<forall>m'. Write_uart m' \<notin> set (Read_core # TIOCOUTQ k # pre)"
      using nw p by auto
    ultimately show ?thesis
      using u by blast
  qed
next
  fix symbolic
  assume "(uart_bitrate, symbolic) \<in> set (conversion t)"
  then show "time_usec 20 uart_bitrate
               = Some (word_of_int (20 * 8 * 1000000 div uint uart_bitrate))"
    by (rule idle_time_usec)
next
  assume a: "0 \<le> core_read_retval w \<and> first_TIOCOUTQ w = (0, int n)
        \<and> later_TIOCOUTQ w = map (\<lambda>k. (0, int k)) (rev [0..<n])
        \<and> (\<forall>k<n. time_usec (int (Suc k)) uart_bitrate = Some (sleep k))
        \<and> time_usec 20 uart_bitrate = Some idle"
  then have s: "\<forall>k<n. time_usec (int (Suc k)) uart_bitrate = Some (sleep k)"
    by blast
  note dl = drain_loop_decreasing [OF s]
  show "driver_uart_process_core uart_bitrate w
            = (Read_core # TIOCOUTQ (int n)
                 # concat (map (\<lambda>k. [Usleep (sleep k), TIOCOUTQ (int k)]) (rev [0..<n]))
                 @ [Usleep idle,
                    Write_uart (take (nat (core_read_retval w)) (core_read_buffer w))],
               if uart_write_retval w (take (nat (core_read_retval w)) (core_read_buffer w)) < 0
                 then Exited (FATAL_SYSCALL_ON ''write_retval < 0'')
               else if nat (uart_write_retval w
                              (take (nat (core_read_retval w)) (core_read_buffer w)))
                         \<noteq> nat (core_read_retval w)
                 then Exited (FATAL_ON ''(size_t)write_retval != (size_t)read_retval'')
               else Returned)"
    using a by (simp add: driver_uart_process_core_def Let_def dl)
qed

theorem C5_write_after_drain_and_idle_witness:
  "driver_uart_process_core 115200
     \<lparr>core_read_retval = 3, core_read_buffer = [0x14, 0, 0, 0x14, 0],
      first_TIOCOUTQ = (0, 2), later_TIOCOUTQ = [(0, 1), (0, 0)],
      uart_write_retval = (\<lambda>m. int (length m))\<rparr>
   = ([Read_core, TIOCOUTQ 2, Usleep 138, TIOCOUTQ 1, Usleep 69, TIOCOUTQ 0, Usleep 1388,
       Write_uart [0x14, 0, 0]], Returned)
   \<and> time_usec 20 115200 = Some 1388
   \<and> (\<exists>pre. [Read_core, TIOCOUTQ 2, Usleep 138, TIOCOUTQ 1, Usleep 69, TIOCOUTQ 0, Usleep 1388,
              Write_uart [0x14, 0, 0]]
             = pre @ [TIOCOUTQ 0, Usleep 1388, Write_uart [0x14, 0, 0]]
           \<and> (\<forall>m'. Write_uart m' \<notin> set pre))"
proof -
  let ?w = "\<lparr>core_read_retval = 3, core_read_buffer = [0x14, 0, 0, 0x14, 0 :: byte],
      first_TIOCOUTQ = (0, 2), later_TIOCOUTQ = [(0, 1), (0, 0)],
      uart_write_retval = (\<lambda>m. int (length m))\<rparr>"
  let ?sleep = "\<lambda>k :: nat. if k = 0 then 69 else (138 :: u32)"
  let ?tr = "[Read_core, TIOCOUTQ 2, Usleep 138, TIOCOUTQ 1, Usleep 69, TIOCOUTQ 0, Usleep 1388,
              Write_uart [0x14, 0, 0]]"
  note th = C5_write_after_drain_and_idle
              [of 115200 ?w "\<lparr>B9600 = 13, B19200 = 14, B38400 = 15, B57600 = 4097,
                 B115200 = 4098, B230400 = 4099, B460800 = 4100, B921600 = 4103\<rparr>" 2 ?sleep 1388]
  have i: "time_usec 20 115200 = Some 1388"
    using th [THEN conjunct2, THEN conjunct1, rule_format, of 4098]
    by (simp add: conversion_def)
  have t1: "time_usec 1 115200 = Some 69" and t2: "time_usec 2 115200 = Some 138"
    by (simp_all add: time_usec_eval)
  have r: "rev [0..<2] = [1, 0]"
    by (simp add: upt_rec)
  have sl: "\<forall>k<2. time_usec (int (Suc k)) 115200 = Some (?sleep k)"
  proof (intro allI impI)
    fix k :: nat
    assume "k < 2"
    then have "k = 0 \<or> k = 1"
      by arith
    then show "time_usec (int (Suc k)) 115200 = Some (?sleep k)"
      using t1 t2 by auto
  qed
  have h: "0 \<le> core_read_retval ?w \<and> first_TIOCOUTQ ?w = (0, int 2)
        \<and> later_TIOCOUTQ ?w = map (\<lambda>k. (0, int k)) (rev [0..<2])
        \<and> (\<forall>k<2. time_usec (int (Suc k)) 115200 = Some (?sleep k))
        \<and> time_usec 20 115200 = Some 1388"
    using sl i by (simp add: r)
  from th [THEN conjunct2, THEN conjunct2, rule_format, OF h]
  have a: "driver_uart_process_core 115200 ?w = (?tr, Returned)"
    by (simp add: r)
  have "Write_uart [0x14, 0, 0] \<in> set (fst (driver_uart_process_core 115200 ?w))"
    unfolding a by simp
  from th [THEN conjunct1, rule_format, OF this]
  obtain pre usec where
    p: "fst (driver_uart_process_core 115200 ?w) = pre @ [TIOCOUTQ 0, Usleep usec, Write_uart [0x14, 0, 0]]"
      "time_usec 20 115200 = Some usec" "\<forall>m'. Write_uart m' \<notin> set pre"
    by blast
  have "usec = 1388"
    using p(2) i by simp
  with p(1,3) have b: "\<exists>pre. ?tr = pre @ [TIOCOUTQ 0, Usleep 1388, Write_uart [0x14, 0, 0]]
           \<and> (\<forall>m'. Write_uart m' \<notin> set pre)"
    unfolding a by auto
  from a i b show ?thesis
    by (intro conjI)
qed

subsection \<open>A header that announces more than the buffer holds\<close>

lemma oversized_delimit:
  "4096 < unat (hdlc_get_length c (header_at c b 0)) \<Longrightarrow> h \<le> UART_BUFFER_SIZE c \<Longrightarrow>
   delimit_and_push_frames_to_core c w co b h = Inr (False, b, h, co)"
  by (simp add: delimit_and_push_frames_to_core_def UART_BUFFER_SIZE_def Let_def)

lemma oversized_process_uart:
  assumes "4096 < unat (hdlc_get_length c (header_at c (buffer s) 0))"
    and "state s = EXPECTING_PAYLOAD"
    and "SLI_CPC_HDLC_HEADER_RAW_SIZE c \<le> buffer_head s"
    and "buffer_head s \<le> UART_BUFFER_SIZE c"
    and "length (buffer s) = UART_BUFFER_SIZE c"
  shows "(\<exists>e. driver_uart_process_uart c w r s = Some (Inl e))
       \<or> (\<exists>s'. driver_uart_process_uart c w r s = Some (Inr s')
             \<and> state s' = EXPECTING_PAYLOAD \<and> core s' = core s
             \<and> header_at c (buffer s') 0 = header_at c (buffer s) 0
             \<and> buffer_head s \<le> buffer_head s' \<and> buffer_head s' \<le> UART_BUFFER_SIZE c
             \<and> length (buffer s') = UART_BUFFER_SIZE c)"
proof (cases "read_and_append_uart_received_data r (buffer s) (buffer_head s) (UART_BUFFER_SIZE c)")
  case (Inl e)
  then show ?thesis
    by (simp add: driver_uart_process_uart_def)
next
  case (Inr p)
  obtain b1 n where p: "p = (b1, n)"
    by (cases p)
  from read_and_append_Inr [OF Inr [unfolded p]]
  obtain temp where t: "length temp = n" "n = min (available_bytes r) (UART_BUFFER_SIZE c - buffer_head s)"
      "b1 = memcpy (buffer s) (buffer_head s) temp n"
    by blast
  let ?s1 = "s\<lparr>buffer := b1, buffer_head := buffer_head s + n\<rparr>"
  have n: "buffer_head s + n \<le> UART_BUFFER_SIZE c"
    using t(2) assms(4) by simp
  have hd: "header_at c b1 0 = header_at c (buffer s) 0"
    unfolding t(3) using assms(3,4,5) by (intro header_memcpy) simp_all
  have len: "length b1 = UART_BUFFER_SIZE c"
    unfolding t(3) using t(1) n assms(5) by (simp add: length_memcpy)
  have d: "delimit_and_push_frames_to_core c w (core s) b1 (buffer_head s + n)
             = Inr (False, b1, buffer_head s + n, core s)"
    using assms(1) n by (intro oversized_delimit) (simp_all add: hd)
  have it: "process_uart_iteration c w ?s1 = Inr (False, ?s1)"
    using assms(2) d by (simp add: process_uart_iteration_def)
  have lp: "process_uart_loop c w ?s1 = Some (Inr ?s1)"
    by (subst process_uart_loop.simps) (simp add: it)
  have "driver_uart_process_uart c w r s = Some (Inr ?s1)"
    using Inr p lp by (simp add: driver_uart_process_uart_def)
  then show ?thesis
    using assms(2) hd n len by simp
qed

lemma oversized_calls:
  assumes "4096 < unat (hdlc_get_length c (header_at c (buffer s) 0))"
    and "state s = EXPECTING_PAYLOAD"
    and "SLI_CPC_HDLC_HEADER_RAW_SIZE c \<le> buffer_head s"
    and "buffer_head s \<le> UART_BUFFER_SIZE c"
    and "length (buffer s) = UART_BUFFER_SIZE c"
  shows "(\<exists>e. process_uart_calls c w rs s = Some (Inl e))
       \<or> (\<exists>s'. process_uart_calls c w rs s = Some (Inr s')
             \<and> state s' = EXPECTING_PAYLOAD \<and> core s' = core s
             \<and> header_at c (buffer s') 0 = header_at c (buffer s) 0
             \<and> buffer_head s \<le> buffer_head s' \<and> buffer_head s' \<le> UART_BUFFER_SIZE c)"
  using assms
proof (induction rs arbitrary: s)
  case Nil
  then show ?case by simp
next
  case (Cons r rs)
  from oversized_process_uart [OF Cons.prems, of w r]
  show ?case
  proof
    assume "\<exists>e. driver_uart_process_uart c w r s = Some (Inl e)"
    then show ?thesis by auto
  next
    assume "\<exists>s'. driver_uart_process_uart c w r s = Some (Inr s')
             \<and> state s' = EXPECTING_PAYLOAD \<and> core s' = core s
             \<and> header_at c (buffer s') 0 = header_at c (buffer s) 0
             \<and> buffer_head s \<le> buffer_head s' \<and> buffer_head s' \<le> UART_BUFFER_SIZE c
             \<and> length (buffer s') = UART_BUFFER_SIZE c"
    then obtain s1 where s1: "driver_uart_process_uart c w r s = Some (Inr s1)"
      "state s1 = EXPECTING_PAYLOAD" "core s1 = core s"
      "header_at c (buffer s1) 0 = header_at c (buffer s) 0"
      "buffer_head s \<le> buffer_head s1" "buffer_head s1 \<le> UART_BUFFER_SIZE c"
      "length (buffer s1) = UART_BUFFER_SIZE c"
      by blast
    have "(\<exists>e. process_uart_calls c w rs s1 = Some (Inl e))
       \<or> (\<exists>s'. process_uart_calls c w rs s1 = Some (Inr s')
             \<and> state s' = EXPECTING_PAYLOAD \<and> core s' = core s1
             \<and> header_at c (buffer s') 0 = header_at c (buffer s1) 0
             \<and> buffer_head s1 \<le> buffer_head s' \<and> buffer_head s' \<le> UART_BUFFER_SIZE c)"
      using Cons.prems s1 by (intro Cons.IH) simp_all
    then show ?thesis
      using s1 Cons.prems(3) by (auto simp: s1(1))
  qed
qed

text \<open>
  Claim C6. Let the header at offset 0 announce a payload of more than 4096 bytes, in
  \<^verbatim>\<open>EXPECTING_PAYLOAD\<close>. Then \<^verbatim>\<open>delimit_and_push_frames_to_core\<close> returns false and
  changes nothing, whatever head up to \<^verbatim>\<open>UART_BUFFER_SIZE\<close> it is called with; the loop
  returns at once; and after any number of further wakes on the link that do not end the
  process the state is still \<^verbatim>\<open>EXPECTING_PAYLOAD\<close>, the same header is at offset 0 and
  nothing has been written to the core.
\<close>

theorem C6_oversized_frame_stalls:
  assumes "4096 < unat (hdlc_get_length c (header_at c (buffer s) 0))"
    and "state s = EXPECTING_PAYLOAD"
    and "SLI_CPC_HDLC_HEADER_RAW_SIZE c \<le> buffer_head s"
    and "buffer_head s \<le> UART_BUFFER_SIZE c"
    and "length (buffer s) = UART_BUFFER_SIZE c"
  shows "(\<forall>h co. h \<le> UART_BUFFER_SIZE c
            \<longrightarrow> delimit_and_push_frames_to_core c w co (buffer s) h = Inr (False, buffer s, h, co))
       \<and> process_uart_loop c w s = Some (Inr s)
       \<and> (\<forall>rs. (\<exists>e. process_uart_calls c w rs s = Some (Inl e))
               \<or> (\<exists>s'. process_uart_calls c w rs s = Some (Inr s')
                     \<and> state s' = EXPECTING_PAYLOAD \<and> core s' = core s
                     \<and> header_at c (buffer s') 0 = header_at c (buffer s) 0
                     \<and> buffer_head s \<le> buffer_head s' \<and> buffer_head s' \<le> UART_BUFFER_SIZE c))"
proof (intro conjI allI impI)
  fix h co
  assume "h \<le> UART_BUFFER_SIZE c"
  with assms(1)
  show "delimit_and_push_frames_to_core c w co (buffer s) h = Inr (False, buffer s, h, co)"
    by (rule oversized_delimit)
next
  have "delimit_and_push_frames_to_core c w (core s) (buffer s) (buffer_head s)
          = Inr (False, buffer s, buffer_head s, core s)"
    using assms(1,4) by (rule oversized_delimit)
  then have "process_uart_iteration c w s = Inr (False, s)"
    using assms(2) by (simp add: process_uart_iteration_def)
  then show "process_uart_loop c w s = Some (Inr s)"
    by (subst process_uart_loop.simps) simp
next
  fix rs
  show "(\<exists>e. process_uart_calls c w rs s = Some (Inl e))
               \<or> (\<exists>s'. process_uart_calls c w rs s = Some (Inr s')
                     \<and> state s' = EXPECTING_PAYLOAD \<and> core s' = core s
                     \<and> header_at c (buffer s') 0 = header_at c (buffer s) 0
                     \<and> buffer_head s \<le> buffer_head s' \<and> buffer_head s' \<le> UART_BUFFER_SIZE c)"
    using assms by (rule oversized_calls)
qed

theorem C6_oversized_frame_stalls_witness:
  "delimit_and_push_frames_to_core example_hdlc (\<lambda>co f. int (length f)) []
       ([0x14, 1, 0x10, 0x25] @ replicate 4096 0) 4100
     = Inr (False, [0x14, 1, 0x10, 0x25] @ replicate 4096 0, 4100, [])
   \<and> process_uart_loop example_hdlc (\<lambda>co f. int (length f))
        \<lparr>buffer = [0x14, 1, 0x10, 0x25] @ replicate 4096 0, buffer_head = 4,
         state = EXPECTING_PAYLOAD, core = []\<rparr>
     = Some (Inr \<lparr>buffer = [0x14, 1, 0x10, 0x25] @ replicate 4096 0, buffer_head = 4,
                  state = EXPECTING_PAYLOAD, core = []\<rparr>)
   \<and> ((\<exists>e. process_uart_calls example_hdlc (\<lambda>co f. int (length f))
              [uart_delivers 0 [1, 2, 3], uart_delivers 0 [4, 5]]
              \<lparr>buffer = [0x14, 1, 0x10, 0x25] @ replicate 4096 0, buffer_head = 4,
               state = EXPECTING_PAYLOAD, core = []\<rparr> = Some (Inl e))
      \<or> (\<exists>s'. process_uart_calls example_hdlc (\<lambda>co f. int (length f))
              [uart_delivers 0 [1, 2, 3], uart_delivers 0 [4, 5]]
              \<lparr>buffer = [0x14, 1, 0x10, 0x25] @ replicate 4096 0, buffer_head = 4,
               state = EXPECTING_PAYLOAD, core = []\<rparr> = Some (Inr s')
            \<and> state s' = EXPECTING_PAYLOAD \<and> core s' = []
            \<and> header_at example_hdlc (buffer s') 0 = [0x14, 1, 0x10, 0x25]
            \<and> 4 \<le> buffer_head s' \<and> buffer_head s' \<le> 4100))"
proof -
  let ?b = "[0x14, 1, 0x10, 0x25] @ replicate 4096 (0 :: byte)"
  let ?s = "\<lparr>buffer = ?b, buffer_head = 4, state = EXPECTING_PAYLOAD, core = []\<rparr>"
  let ?w = "\<lambda>(co :: byte list list) (f :: byte list). int (length f)"
  have r: "SLI_CPC_HDLC_HEADER_RAW_SIZE example_hdlc = 4"
    by (simp add: example_hdlc_def)
  have u: "UART_BUFFER_SIZE example_hdlc = 4100"
    by (simp add: UART_BUFFER_SIZE_def r)
  have hd: "header_at example_hdlc ?b 0 = [0x14, 1, 0x10, 0x25]"
    by (simp add: header_at_def r)
  have h1: "4096 < unat (hdlc_get_length example_hdlc (header_at example_hdlc (buffer ?s) 0))"
    using hd by (simp add: example_hdlc_def)
  have h2: "state ?s = EXPECTING_PAYLOAD"
    by simp
  have h3: "SLI_CPC_HDLC_HEADER_RAW_SIZE example_hdlc \<le> buffer_head ?s"
    by (simp add: r)
  have h4: "buffer_head ?s \<le> UART_BUFFER_SIZE example_hdlc"
    by (simp add: u)
  have h5: "length (buffer ?s) = UART_BUFFER_SIZE example_hdlc"
    by (simp add: u)
  note th = C6_oversized_frame_stalls [OF h1 h2 h3 h4 h5, of ?w]
  from th have a: "delimit_and_push_frames_to_core example_hdlc ?w [] ?b 4100
                     = Inr (False, ?b, 4100, [])"
    by (simp add: u)
  from th have b: "process_uart_loop example_hdlc ?w ?s = Some (Inr ?s)"
    by simp
  from th have "\<forall>rs. (\<exists>e. process_uart_calls example_hdlc ?w rs ?s = Some (Inl e))
               \<or> (\<exists>s'. process_uart_calls example_hdlc ?w rs ?s = Some (Inr s')
                     \<and> state s' = EXPECTING_PAYLOAD \<and> core s' = core ?s
                     \<and> header_at example_hdlc (buffer s') 0 = header_at example_hdlc (buffer ?s) 0
                     \<and> buffer_head ?s \<le> buffer_head s'
                     \<and> buffer_head s' \<le> UART_BUFFER_SIZE example_hdlc)"
    by (elim conjE)
  from this [rule_format, of "[uart_delivers 0 [1, 2, 3], uart_delivers 0 [4, 5]]"]
  have c: "(\<exists>e. process_uart_calls example_hdlc ?w
              [uart_delivers 0 [1, 2, 3], uart_delivers 0 [4, 5]] ?s = Some (Inl e))
      \<or> (\<exists>s'. process_uart_calls example_hdlc ?w
              [uart_delivers 0 [1, 2, 3], uart_delivers 0 [4, 5]] ?s = Some (Inr s')
            \<and> state s' = EXPECTING_PAYLOAD \<and> core s' = []
            \<and> header_at example_hdlc (buffer s') 0 = [0x14, 1, 0x10, 0x25]
            \<and> 4 \<le> buffer_head s' \<and> buffer_head s' \<le> 4100)"
    using hd by (simp add: u)
  show ?thesis
    using a b c by (intro conjI)
qed

subsection \<open>Termination of the ingress loop\<close>

text \<open>
  Claim C7 says that each pass through the loop either reports no progress or strictly
  decreases \<^verbatim>\<open>buffer_head\<close>. Here the buffer starts with a valid header: the pass
  reports progress, and neither the buffer nor the head changes.
\<close>

theorem C7_counterexample:
  "process_uart_iteration example_hdlc (\<lambda>co f. int (length f))
     \<lparr>buffer = [0x14, 2, 0, 0x16, 0xAA, 0, 0, 0], buffer_head = 5,
      state = EXPECTING_HEADER, core = []\<rparr>
   = Inr (True, \<lparr>buffer = [0x14, 2, 0, 0x16, 0xAA, 0, 0, 0], buffer_head = 5,
                 state = EXPECTING_PAYLOAD, core = []\<rparr>)"
  by (simp add: process_uart_iteration_def header_re_synch_def
        header_re_synch_loop.simps [of _ _ _ _ 0] header_at_def validate_header_def
        example_hdlc_def)

text \<open>
  Claim C7, amended. With a header size above zero the loop of
  \<^verbatim>\<open>driver_uart_process_uart\<close> ends for every buffer content, head and state: it returns,
  or a write to the core that is not complete ends the process; with complete writes and
  the head inside the array it returns. A pass that goes on changes the state, and either
  strictly decreases the head or, from \<^verbatim>\<open>EXPECTING_HEADER\<close> with a valid header at offset
  0, leaves the buffer and the head as they are. Two passes in a row that go on strictly
  decrease the head.
\<close>

theorem C7_loop_terminates:
  assumes "0 < SLI_CPC_HDLC_HEADER_RAW_SIZE c"
  shows "(\<exists>res. process_uart_loop c w s = Some res)
       \<and> (buffer_head s \<le> length (buffer s) \<and> (\<forall>co f. w co f = int (length f))
            \<longrightarrow> (\<exists>s'. process_uart_loop c w s = Some (Inr s')))
       \<and> (\<forall>s'. process_uart_iteration c w s = Inr (True, s')
            \<longrightarrow> state s' \<noteq> state s
                \<and> (buffer_head s' < buffer_head s
                    \<or> state s = EXPECTING_HEADER \<and> buffer_head s' = buffer_head s
                        \<and> buffer s' = buffer s))
       \<and> (\<forall>s' s''. process_uart_iteration c w s = Inr (True, s')
                \<and> process_uart_iteration c w s' = Inr (True, s'')
            \<longrightarrow> buffer_head s'' < buffer_head s)"
proof -
  from process_uart_loop_total [of c "\<lambda>s. True" w s, OF assms]
  have c1: "\<exists>res. process_uart_loop c w s = Some res"
    by auto
  have c2: "\<exists>s'. process_uart_loop c w s = Some (Inr s')"
    if a: "buffer_head s \<le> length (buffer s) \<and> (\<forall>co f. w co f = int (length f))"
  proof -
    let ?P = "\<lambda>s. buffer_head s \<le> length (buffer s)"
    have "\<exists>res. process_uart_loop c w s = Some res
             \<and> (case res of
                   Inl e \<Rightarrow> (\<exists>s0. ?P s0 \<and> process_uart_iteration c w s0 = Inl e)
                 | Inr s' \<Rightarrow> ?P s' \<and> (\<exists>s0. ?P s0 \<and> process_uart_iteration c w s0 = Inr (False, s')))"
    proof (rule process_uart_loop_total [of c ?P w s, OF assms])
      fix s1 again s2
      assume "?P s1" and "process_uart_iteration c w s1 = Inr (again, s2)"
      then show "?P s2"
        using iteration_keeps_array [of c w s1 again s2] assms by simp
    next
      show "?P s"
        using a by simp
    qed
    then obtain res where res: "process_uart_loop c w s = Some res"
      "case res of
         Inl e \<Rightarrow> (\<exists>s0. ?P s0 \<and> process_uart_iteration c w s0 = Inl e)
       | Inr s' \<Rightarrow> ?P s' \<and> (\<exists>s0. ?P s0 \<and> process_uart_iteration c w s0 = Inr (False, s'))"
      by blast
    show ?thesis
    proof (cases res)
      case (Inl e)
      with res(2) obtain s0 where "?P s0" "process_uart_iteration c w s0 = Inl e"
        by auto
      with iteration_not_fatal [of w s0 c e] a show ?thesis
        by simp
    next
      case (Inr s')
      with res(1) show ?thesis
        by simp
    qed
  qed
  have c3: "state s' \<noteq> state s
          \<and> (buffer_head s' < buffer_head s
              \<or> state s = EXPECTING_HEADER \<and> buffer_head s' = buffer_head s
                  \<and> buffer s' = buffer s)"
    if "process_uart_iteration c w s = Inr (True, s')" for s'
    using iteration_kinds [OF that assms] by auto
  have c4: "buffer_head s'' < buffer_head s"
    if "process_uart_iteration c w s = Inr (True, s')
          \<and> process_uart_iteration c w s' = Inr (True, s'')" for s' s''
  proof -
    from that have 1: "process_uart_iteration c w s = Inr (True, s')"
      and 2: "process_uart_iteration c w s' = Inr (True, s'')"
      by simp_all
    from iteration_kinds [OF 1 assms] iteration_kinds [OF 2 assms]
    show ?thesis
      by auto
  qed
  from c1 c2 c3 c4 show ?thesis
    by blast
qed

theorem C7_loop_terminates_witness:
  "(\<exists>s'. process_uart_loop example_hdlc (\<lambda>co f. int (length f))
       \<lparr>buffer = [0x14, 0, 0, 0x14, 0x14, 1, 0, 0x15, 0xAA, 7, 7, 7], buffer_head = 11,
        state = EXPECTING_HEADER, core = []\<rparr> = Some (Inr s'))"
proof -
  let ?s = "\<lparr>buffer = [0x14, 0, 0, 0x14, 0x14, 1, 0, 0x15, 0xAA, 7, 7, 7 :: byte],
             buffer_head = 11, state = EXPECTING_HEADER, core = []\<rparr>"
  let ?w = "\<lambda>(co :: byte list list) (f :: byte list). int (length f)"
  have r: "0 < SLI_CPC_HDLC_HEADER_RAW_SIZE example_hdlc"
    by (simp add: example_hdlc_def)
  have h: "buffer_head ?s \<le> length (buffer ?s) \<and> (\<forall>co f. ?w co f = int (length f))"
    by simp
  from C7_loop_terminates [OF r, of ?w ?s, THEN conjunct2, THEN conjunct1, rule_format, OF h]
  show ?thesis .
qed

subsection \<open>The head stays within the array\<close>

lemma process_uart_keeps_capacity:
  assumes "0 < SLI_CPC_HDLC_HEADER_RAW_SIZE c"
    and "length (buffer s) = UART_BUFFER_SIZE c"
    and "buffer_head s \<le> UART_BUFFER_SIZE c"
  shows "\<exists>res. driver_uart_process_uart c w r s = Some res
           \<and> (\<forall>s'. res = Inr s'
                 \<longrightarrow> length (buffer s') = UART_BUFFER_SIZE c
                     \<and> buffer_head s' \<le> UART_BUFFER_SIZE c)"
proof (cases "read_and_append_uart_received_data r (buffer s) (buffer_head s) (UART_BUFFER_SIZE c)")
  case (Inl e)
  then show ?thesis
    by (simp add: driver_uart_process_uart_def)
next
  case (Inr p)
  obtain b1 n where p: "p = (b1, n)"
    by (cases p)
  from read_and_append_Inr [OF Inr [unfolded p]]
  obtain temp where t: "length temp = n"
      "n = min (available_bytes r) (UART_BUFFER_SIZE c - buffer_head s)"
      "b1 = memcpy (buffer s) (buffer_head s) temp n"
    by blast
  let ?s1 = "s\<lparr>buffer := b1, buffer_head := buffer_head s + n\<rparr>"
  let ?P = "\<lambda>s. length (buffer s) = UART_BUFFER_SIZE c \<and> buffer_head s \<le> UART_BUFFER_SIZE c"
  have n: "buffer_head s + n \<le> UART_BUFFER_SIZE c"
    using t(2) assms(3) by simp
  have len: "length b1 = UART_BUFFER_SIZE c"
    unfolding t(3) using t(1) n assms(2) by (simp add: length_memcpy)
  have "\<exists>res. process_uart_loop c w ?s1 = Some res
           \<and> (case res of
                 Inl e \<Rightarrow> (\<exists>s0. ?P s0 \<and> process_uart_iteration c w s0 = Inl e)
               | Inr s' \<Rightarrow> ?P s' \<and> (\<exists>s0. ?P s0 \<and> process_uart_iteration c w s0 = Inr (False, s')))"
  proof (rule process_uart_loop_total [of c ?P w ?s1, OF assms(1)])
    fix s1 again s2
    assume "?P s1" and "process_uart_iteration c w s1 = Inr (again, s2)"
    then show "?P s2"
      using iteration_keeps_array [of c w s1 again s2] assms(1) by simp
  next
    show "?P ?s1"
      using n len by simp
  qed
  then obtain res where res1: "process_uart_loop c w ?s1 = Some res"
    and cs: "case res of
               Inl e \<Rightarrow> (\<exists>s0. ?P s0 \<and> process_uart_iteration c w s0 = Inl e)
             | Inr s' \<Rightarrow> ?P s' \<and> (\<exists>s0. ?P s0 \<and> process_uart_iteration c w s0 = Inr (False, s'))"
    by blast
  have res2: "\<forall>s'. res = Inr s' \<longrightarrow> ?P s'"
    using cs by (cases res) simp_all
  note res = res1 res2
  have "driver_uart_process_uart c w r s = Some res"
    using Inr p res(1) by (simp add: driver_uart_process_uart_def)
  then show ?thesis
    using res(2) by simp
qed

lemma process_uart_calls_keep_capacity:
  assumes "0 < SLI_CPC_HDLC_HEADER_RAW_SIZE c"
    and "length (buffer s) = UART_BUFFER_SIZE c"
    and "buffer_head s \<le> UART_BUFFER_SIZE c"
  shows "\<exists>res. process_uart_calls c w rs s = Some res
           \<and> (\<forall>s'. res = Inr s'
                 \<longrightarrow> length (buffer s') = UART_BUFFER_SIZE c
                     \<and> buffer_head s' \<le> UART_BUFFER_SIZE c)"
  using assms(2,3)
proof (induction rs arbitrary: s)
  case Nil
  then show ?case
    by simp
next
  case (Cons r rs)
  from process_uart_keeps_capacity [OF assms(1) Cons.prems, of w r]
  obtain res where res: "driver_uart_process_uart c w r s = Some res"
    "\<forall>s'. res = Inr s' \<longrightarrow> length (buffer s') = UART_BUFFER_SIZE c
                     \<and> buffer_head s' \<le> UART_BUFFER_SIZE c"
    by blast
  show ?case
  proof (cases res)
    case (Inl e)
    then show ?thesis
      using res(1) by simp
  next
    case (Inr s1)
    with res(2) have "length (buffer s1) = UART_BUFFER_SIZE c"
      "buffer_head s1 \<le> UART_BUFFER_SIZE c"
      by simp_all
    from Cons.IH [OF this]
    show ?thesis
      using res(1) Inr by simp
  qed
qed

text \<open>
  Claim C8. Let the array have \<^verbatim>\<open>UART_BUFFER_SIZE\<close> bytes and the head be within it.
  After a successful append the head is still within the array, and the buffered bytes are
  the former ones followed by the bytes read. After \<^verbatim>\<open>header_re_synch\<close>, and after
  \<^verbatim>\<open>delimit_and_push_frames_to_core\<close>, whatever they return, the head is within the
  array and the buffered bytes, from offset 0 up to the new head, are the last of those
  buffered before: no offset other than 0 is ever kept. Any number of wakes on the link
  ends, and when the process lives on the array has \<^verbatim>\<open>UART_BUFFER_SIZE\<close> bytes and the
  head is within it; so it is from program start.
\<close>

theorem C8_head_within_capacity:
  assumes "0 < SLI_CPC_HDLC_HEADER_RAW_SIZE c"
    and "length (buffer s) = UART_BUFFER_SIZE c"
    and "buffer_head s \<le> UART_BUFFER_SIZE c"
  shows "(\<forall>b1 n. read_and_append_uart_received_data r (buffer s) (buffer_head s)
                   (UART_BUFFER_SIZE c) = Inr (b1, n)
            \<longrightarrow> buffer_head s + n \<le> UART_BUFFER_SIZE c \<and> length b1 = UART_BUFFER_SIZE c
                \<and> (\<exists>temp. read_result r n = Some temp
                      \<and> take (buffer_head s + n) b1
                          = take (buffer_head s) (buffer s) @ temp))
       \<and> (\<forall>ok b1 h1. header_re_synch c (buffer s) (buffer_head s) = (ok, b1, h1)
            \<longrightarrow> h1 \<le> UART_BUFFER_SIZE c \<and> length b1 = UART_BUFFER_SIZE c
                \<and> take h1 b1 = drop (buffer_head s - h1) (take (buffer_head s) (buffer s)))
       \<and> (\<forall>ok b1 h1 co1.
             delimit_and_push_frames_to_core c w (core s) (buffer s) (buffer_head s)
               = Inr (ok, b1, h1, co1)
            \<longrightarrow> h1 \<le> UART_BUFFER_SIZE c \<and> length b1 = UART_BUFFER_SIZE c
                \<and> take h1 b1 = drop (buffer_head s - h1) (take (buffer_head s) (buffer s)))
       \<and> (\<forall>rs. \<exists>res. process_uart_calls c w rs s = Some res
                  \<and> (\<forall>s'. res = Inr s'
                        \<longrightarrow> length (buffer s') = UART_BUFFER_SIZE c
                            \<and> buffer_head s' \<le> UART_BUFFER_SIZE c))
       \<and> (\<forall>rs. \<exists>res. process_uart_calls c w rs (ingress_init c) = Some res
                  \<and> (\<forall>s'. res = Inr s'
                        \<longrightarrow> length (buffer s') = UART_BUFFER_SIZE c
                            \<and> buffer_head s' \<le> UART_BUFFER_SIZE c))"
proof -
  have hl: "buffer_head s \<le> length (buffer s)"
    using assms(2,3) by simp
  have c1: "buffer_head s + n \<le> UART_BUFFER_SIZE c \<and> length b1 = UART_BUFFER_SIZE c
              \<and> (\<exists>temp. read_result r n = Some temp
                    \<and> take (buffer_head s + n) b1 = take (buffer_head s) (buffer s) @ temp)"
    if a: "read_and_append_uart_received_data r (buffer s) (buffer_head s)
             (UART_BUFFER_SIZE c) = Inr (b1, n)" for b1 n
  proof -
    from read_and_append_Inr [OF a]
    obtain temp where t: "read_result r n = Some temp" "length temp = n"
        "n = min (available_bytes r) (UART_BUFFER_SIZE c - buffer_head s)"
        "b1 = memcpy (buffer s) (buffer_head s) temp n"
      by blast
    have n: "buffer_head s + n \<le> UART_BUFFER_SIZE c"
      using t(3) assms(3) by simp
    have len: "length b1 = UART_BUFFER_SIZE c"
      unfolding t(4) using t(2) n assms(2) by (simp add: length_memcpy)
    have "take (buffer_head s + n) b1 = take (buffer_head s) (buffer s) @ temp"
      unfolding t(4) using t(2) hl by (rule take_memcpy)
    then show ?thesis
      using n len t(1) by blast
  qed
  have c2: "h1 \<le> UART_BUFFER_SIZE c \<and> length b1 = UART_BUFFER_SIZE c
              \<and> take h1 b1 = drop (buffer_head s - h1) (take (buffer_head s) (buffer s))"
    if a: "header_re_synch c (buffer s) (buffer_head s) = (ok, b1, h1)" for ok b1 h1
    using header_re_synch_result [OF a assms(1) hl] assms(2,3) by simp
  have c3: "h1 \<le> UART_BUFFER_SIZE c \<and> length b1 = UART_BUFFER_SIZE c
              \<and> take h1 b1 = drop (buffer_head s - h1) (take (buffer_head s) (buffer s))"
    if a: "delimit_and_push_frames_to_core c w (core s) (buffer s) (buffer_head s)
             = Inr (ok, b1, h1, co1)" for ok b1 h1 co1
    using delimit_result [OF a hl] assms(2,3) by simp
  have c4: "\<exists>res. process_uart_calls c w rs s = Some res
                  \<and> (\<forall>s'. res = Inr s'
                        \<longrightarrow> length (buffer s') = UART_BUFFER_SIZE c
                            \<and> buffer_head s' \<le> UART_BUFFER_SIZE c)" for rs
    using assms by (rule process_uart_calls_keep_capacity)
  have c5: "\<exists>res. process_uart_calls c w rs (ingress_init c) = Some res
                  \<and> (\<forall>s'. res = Inr s'
                        \<longrightarrow> length (buffer s') = UART_BUFFER_SIZE c
                            \<and> buffer_head s' \<le> UART_BUFFER_SIZE c)" for rs
    using assms(1) by (rule process_uart_calls_keep_capacity) (simp_all add: ingress_init_def)
  from c1 c2 c3 c4 c5 show ?thesis
    by blast
qed

theorem C8_head_within_capacity_witness:
  "read_and_append_uart_received_data (uart_delivers 0 [7, 8])
       ([1, 2, 3, 4, 5, 6] @ replicate 4094 0) 6 4100
     = Inr ([1, 2, 3, 4, 5, 6, 7, 8] @ replicate 4092 0, 2)
   \<and> length ([1, 2, 3, 4, 5, 6, 7, 8] @ replicate 4092 (0 :: byte)) = 4100
   \<and> (\<exists>b1 h1. header_re_synch example_hdlc ([1, 2, 3, 4, 5, 6] @ replicate 4094 0) 6
                 = (False, b1, h1)
          \<and> h1 \<le> 4100 \<and> length b1 = 4100 \<and> take h1 b1 = drop (6 - h1) [1, 2, 3, 4, 5, 6])
   \<and> (\<exists>res. process_uart_calls example_hdlc (\<lambda>co f. int (length f))
               [uart_delivers 0 [7, 8], uart_delivers 0 [9]]
               \<lparr>buffer = [1, 2, 3, 4, 5, 6] @ replicate 4094 0, buffer_head = 6,
                state = EXPECTING_HEADER, core = []\<rparr> = Some res)"
proof -
  let ?b = "[1, 2, 3, 4, 5, 6] @ replicate 4094 (0 :: byte)"
  let ?s = "\<lparr>buffer = ?b, buffer_head = 6, state = EXPECTING_HEADER, core = []\<rparr>"
  let ?w = "\<lambda>(co :: byte list list) (f :: byte list). int (length f)"
  have r4: "SLI_CPC_HDLC_HEADER_RAW_SIZE example_hdlc = 4"
    by (simp add: example_hdlc_def)
  have u: "UART_BUFFER_SIZE example_hdlc = 4100"
    by (simp add: UART_BUFFER_SIZE_def r4)
  have h1: "0 < SLI_CPC_HDLC_HEADER_RAW_SIZE example_hdlc"
    by (simp add: r4)
  have h2: "length (buffer ?s) = UART_BUFFER_SIZE example_hdlc"
    by (simp add: u)
  have h3: "buffer_head ?s \<le> UART_BUFFER_SIZE example_hdlc"
    by (simp add: u)
  note th = C8_head_within_capacity [OF h1 h2 h3, of "uart_delivers 0 [7, 8]" ?w]
  have rd: "read_and_append_uart_received_data (uart_delivers 0 [7, 8]) ?b 6 4100
              = Inr ([1, 2, 3, 4, 5, 6, 7, 8] @ replicate 4092 0, 2)"
    by (simp add: read_and_append_uart_received_data_def uart_delivers_def available_bytes_def memcpy_def)
  from th [THEN conjunct1, rule_format, of "[1, 2, 3, 4, 5, 6, 7, 8] @ replicate 4092 0" 2] rd
  have 1: "length ([1, 2, 3, 4, 5, 6, 7, 8] @ replicate 4092 (0 :: byte)) = 4100"
    by (simp add: u)
  obtain ok b1 h1 where rs: "header_re_synch example_hdlc ?b 6 = (ok, b1, h1)"
    by (cases "header_re_synch example_hdlc ?b 6")
  have nv: "\<forall>i. i + SLI_CPC_HDLC_HEADER_RAW_SIZE example_hdlc \<le> 6
              \<longrightarrow> \<not> validate_header example_hdlc (header_at example_hdlc ?b i)"
  proof (intro allI impI)
    fix i
    assume "i + SLI_CPC_HDLC_HEADER_RAW_SIZE example_hdlc \<le> 6"
    then have "i = 0 \<or> i = 1 \<or> i = 2"
      by (auto simp: r4)
    then show "\<not> validate_header example_hdlc (header_at example_hdlc ?b i)"
      by (auto simp: header_at_def validate_header_def example_hdlc_def)
  qed
  have "\<not> ok"
    using rs header_re_synch_none [of example_hdlc 6 ?b, OF _ nv] by (simp add: r4)
  with th [THEN conjunct2, THEN conjunct1, rule_format, of ok b1 h1] rs
  have 2: "\<exists>b1 h1. header_re_synch example_hdlc ?b 6 = (False, b1, h1)
          \<and> h1 \<le> 4100 \<and> length b1 = 4100 \<and> take h1 b1 = drop (6 - h1) [1, 2, 3, 4, 5, 6]"
    by (simp add: u)
  from th [THEN conjunct2, THEN conjunct2, THEN conjunct2, THEN conjunct1, rule_format,
           of "[uart_delivers 0 [7, 8], uart_delivers 0 [9]]"]
  have 3: "\<exists>res. process_uart_calls example_hdlc ?w
               [uart_delivers 0 [7, 8], uart_delivers 0 [9]] ?s = Some res"
    by blast
  from rd 1 2 3 show ?thesis
    by (intro conjI)
qed

subsection \<open>The bit rate\<close>

text \<open>
  Claim C9. \<^verbatim>\<open>driver_uart_open\<close> returns a descriptor only for a bit rate of its table.
  For any other bit rate it ends the process: with \<^verbatim>\<open>invalid bitrate\<close> when the device
  could be opened and its settings read, with the fatal exit of those calls otherwise.
\<close>

theorem C9_open_needs_listed_bitrate:
  "(\<forall>fd. driver_uart_open t sys device bitrate hardflow = Inr fd
       \<longrightarrow> bitrate \<in> {9600, 19200, 38400, 57600, 115200, 230400, 460800, 921600})
   \<and> (bitrate \<notin> {9600, 19200, 38400, 57600, 115200, 230400, 460800, 921600}
       \<longrightarrow> (\<exists>e. driver_uart_open t sys device bitrate hardflow = Inl e)
         \<and> (0 \<le> open_retval sys \<and> tcgetattr_retval sys \<noteq> - 1
               \<longrightarrow> driver_uart_open t sys device bitrate hardflow
                     = Inl (FATAL ''invalid bitrate: %d'')))"
proof -
  have miss: "fold (\<lambda>(val, symbolic) sym_bitrate.
                      if val = bitrate then symbolic else sym_bitrate) (conversion t) (- 1) = - 1"
    if "bitrate \<notin> {9600, 19200, 38400, 57600, 115200, 230400, 460800, 921600}"
    using that by (auto simp: conversion_def)
  have out: "\<exists>e. driver_uart_open t sys device bitrate hardflow = Inl e"
    if "bitrate \<notin> {9600, 19200, 38400, 57600, 115200, 230400, 460800, 921600}"
    using miss [OF that] by (simp add: driver_uart_open_def Let_def)
  have inv: "driver_uart_open t sys device bitrate hardflow = Inl (FATAL ''invalid bitrate: %d'')"
    if "bitrate \<notin> {9600, 19200, 38400, 57600, 115200, 230400, 460800, 921600}"
      and "0 \<le> open_retval sys \<and> tcgetattr_retval sys \<noteq> - 1"
    using miss [OF that(1)] that(2) by (simp add: driver_uart_open_def Let_def)
  have ok: "bitrate \<in> {9600, 19200, 38400, 57600, 115200, 230400, 460800, 921600}"
    if "driver_uart_open t sys device bitrate hardflow = Inr fd" for fd
  proof (rule ccontr)
    assume "bitrate \<notin> {9600, 19200, 38400, 57600, 115200, 230400, 460800, 921600}"
    from out [OF this] that show False
      by simp
  qed
  show ?thesis
    using out inv ok by blast
qed

theorem C9_open_needs_listed_bitrate_witness:
  "driver_uart_open
     \<lparr>B9600 = 13, B19200 = 14, B38400 = 15, B57600 = 4097, B115200 = 4098, B230400 = 4099,
      B460800 = 4100, B921600 = 4103\<rparr>
     \<lparr>open_retval = 3, tcgetattr_retval = 0, tcsetattr_retval = 0\<rparr>
     ''/dev/ttyACM0'' 100000 False
   = Inl (FATAL ''invalid bitrate: %d'')
   \<and> driver_uart_open
     \<lparr>B9600 = 13, B19200 = 14, B38400 = 15, B57600 = 4097, B115200 = 4098, B230400 = 4099,
      B460800 = 4100, B921600 = 4103\<rparr>
     \<lparr>open_retval = 3, tcgetattr_retval = 0, tcsetattr_retval = 0\<rparr>
     ''/dev/ttyACM0'' 115200 False
   = Inr 3
   \<and> (115200 :: u32) \<in> {9600, 19200, 38400, 57600, 115200, 230400, 460800, 921600}"
proof -
  let ?t = "\<lparr>B9600 = 13, B19200 = 14, B38400 = 15, B57600 = 4097, B115200 = 4098,
             B230400 = 4099, B460800 = 4100, B921600 = 4103\<rparr>"
  let ?sys = "\<lparr>open_retval = 3, tcgetattr_retval = 0, tcsetattr_retval = 0\<rparr>"
  have ok: "driver_uart_open ?t ?sys ''/dev/ttyACM0'' 115200 False = Inr 3"
    by (simp add: driver_uart_open_def conversion_def)
  have a: "driver_uart_open ?t ?sys ''/dev/ttyACM0'' 100000 False
             = Inl (FATAL ''invalid bitrate: %d'')"
    using C9_open_needs_listed_bitrate [of ?t ?sys "''/dev/ttyACM0''" 100000 False]
    by simp
  have b: "(115200 :: u32) \<in> {9600, 19200, 38400, 57600, 115200, 230400, 460800, 921600}"
    using C9_open_needs_listed_bitrate [of ?t ?sys "''/dev/ttyACM0''" 115200 False] ok
    by blast
  show ?thesis
    using a ok b by (intro conjI)
qed

subsection \<open>Waiting for an event\<close>

lemma retry_skips:
  "\<forall>i \<in> set interrupted. event_count i = - 1 \<and> errno i = EINTR \<Longrightarrow>
   epoll_wait_retry EINTR (interrupted @ script) = epoll_wait_retry EINTR script"
proof (induction interrupted)
  case Nil
  show ?case by simp
next
  case (Cons i interrupted)
  have i: "event_count i = - 1 \<and> errno i = EINTR"
    using Cons.prems by simp
  have "epoll_wait_retry EINTR ((i # interrupted) @ script)
          = epoll_wait_retry EINTR (interrupted @ script)"
    using i by (simp del: One_nat_def)
  also have "\<dots> = epoll_wait_retry EINTR script"
    using Cons.prems by (intro Cons.IH) simp
  finally show ?case .
qed

lemma thread_skips:
  assumes "\<forall>r \<in> set interrupted. event_count r = - 1 \<and> errno r = EINTR"
  shows "driver_thread_func run EINTR (interrupted @ script) s
           = driver_thread_func run EINTR script s"
  by (subst (1 2) driver_thread_func.simps) (simp only: retry_skips [OF assms])

text \<open>
  Claim C10. Calls of \<^verbatim>\<open>epoll_wait\<close> that return \<open>-1\<close> with \<^verbatim>\<open>errno == EINTR\<close>
  are repeated and leave no trace. The first other result decides: a negative count and a
  count of zero end the process, and no later result is looked at; a positive count runs
  the callbacks of the ready entries, and the loop goes on if they return.
\<close>

theorem C10_wait_retries_or_is_fatal:
  assumes "\<forall>i \<in> set interrupted. event_count i = - 1 \<and> errno i = EINTR"
    and "\<not> (event_count r = - 1 \<and> errno r = EINTR)"
  shows "driver_thread_func run EINTR (interrupted @ r # script) s
           = driver_thread_func run EINTR (r # script) s
       \<and> (event_count r < 0
            \<longrightarrow> driver_thread_func run EINTR (interrupted @ r # script) s
                  = Inl (FATAL_SYSCALL_ON ''event_count < 0''))
       \<and> (event_count r = 0
            \<longrightarrow> driver_thread_func run EINTR (interrupted @ r # script) s
                  = Inl (FATAL_ON ''event_count == 0''))
       \<and> (0 < event_count r
            \<longrightarrow> driver_thread_func run EINTR (interrupted @ r # script) s
                  = (case process_ready run (take (nat (event_count r)) (events r)) s of
                       Inl e \<Rightarrow> Inl e
                     | Inr s' \<Rightarrow> driver_thread_func run EINTR script s'))"
proof -
  have skip: "driver_thread_func run EINTR (interrupted @ r # script) s
                = driver_thread_func run EINTR (r # script) s"
    using assms(1) by (rule thread_skips)
  have w: "epoll_wait_retry EINTR (r # script) = Some (r, script)"
    using assms(2) by auto
  have one: "driver_thread_func run EINTR (r # script) s
     = (if event_count r < 0 then Inl (FATAL_SYSCALL_ON ''event_count < 0'')
        else if event_count r = 0 then Inl (FATAL_ON ''event_count == 0'')
        else case process_ready run (take (nat (event_count r)) (events r)) s of
              Inl e \<Rightarrow> Inl e
            | Inr s' \<Rightarrow> driver_thread_func run EINTR script s')"
    by (subst driver_thread_func.simps) (simp only: w option.case prod.case)
  show ?thesis
    unfolding skip one by simp
qed

theorem C10_wait_retries_or_is_fatal_witness:
  "driver_thread_func (\<lambda>cb n. Inr (Suc n)) 4
     [\<lparr>event_count = - 1, errno = 4, events = [Process_uart]\<rparr>,
      \<lparr>event_count = - 1, errno = 4, events = [Process_uart]\<rparr>,
      \<lparr>event_count = - 1, errno = 9, events = [Process_uart]\<rparr>,
      \<lparr>event_count = 1, errno = 0, events = [Process_uart]\<rparr>] (0 :: nat)
     = Inl (FATAL_SYSCALL_ON ''event_count < 0'')
   \<and> driver_thread_func (\<lambda>cb n. Inr (Suc n)) 4
     [\<lparr>event_count = - 1, errno = 4, events = [Process_uart]\<rparr>,
      \<lparr>event_count = 0, errno = 0, events = [Process_uart]\<rparr>,
      \<lparr>event_count = 1, errno = 0, events = [Process_uart]\<rparr>] (0 :: nat)
     = Inl (FATAL_ON ''event_count == 0'')
   \<and> driver_thread_func (\<lambda>cb n. Inr (Suc n)) 4
     [\<lparr>event_count = - 1, errno = 4, events = [Process_uart]\<rparr>,
      \<lparr>event_count = 1, errno = 0, events = [Process_uart]\<rparr>] (0 :: nat)
     = Inr 1"
proof -
  let ?i = "\<lparr>event_count = - 1, errno = 4, events = [Process_uart]\<rparr>"
  let ?bad = "\<lparr>event_count = - 1, errno = 9, events = [Process_uart]\<rparr>"
  let ?zero = "\<lparr>event_count = 0, errno = 0, events = [Process_uart]\<rparr>"
  let ?one = "\<lparr>event_count = 1, errno = 0, events = [Process_uart]\<rparr>"
  let ?run = "\<lambda>(cb :: callback) (n :: nat). (Inr (Suc n) :: fatal + nat)"
  have i2: "\<forall>i \<in> set [?i, ?i]. event_count i = - 1 \<and> errno i = 4"
    by simp
  have i1: "\<forall>i \<in> set [?i]. event_count i = - 1 \<and> errno i = 4"
    by simp
  have nb: "\<not> (event_count ?bad = - 1 \<and> errno ?bad = 4)"
    by simp
  have nz: "\<not> (event_count ?zero = - 1 \<and> errno ?zero = 4)"
    by simp
  have no: "\<not> (event_count ?one = - 1 \<and> errno ?one = 4)"
    by simp
  have e: "driver_thread_func ?run 4 [] (1 :: nat) = Inr 1"
    by (subst driver_thread_func.simps) simp
  have a: "driver_thread_func ?run 4 [?i, ?i, ?bad, ?one] 0 = Inl (FATAL_SYSCALL_ON ''event_count < 0'')"
    using C10_wait_retries_or_is_fatal [OF i2 nb, of ?run "[?one]" 0, THEN conjunct2] by simp
  have b: "driver_thread_func ?run 4 [?i, ?zero, ?one] 0 = Inl (FATAL_ON ''event_count == 0'')"
    using C10_wait_retries_or_is_fatal [OF i1 nz, of ?run "[?one]" 0, THEN conjunct2] by simp
  have c: "driver_thread_func ?run 4 [?i, ?one] 0 = Inr 1"
    using C10_wait_retries_or_is_fatal [OF i1 no, of ?run "[]" 0, THEN conjunct2] e by simp
  show ?thesis
    using a b c by (intro conjI)
qed

end
